theory Spec2Isabelle
  imports Main "HOL-Library.Sublist"
begin

section \<open>The worker pool of ThreadPool.cpp as a transition system\<close>

text \<open>
  The class \<^verbatim>\<open>ThreadPool\<close> owns a vector of worker threads, a FIFO queue of type-erased
  tasks, a mutex, a condition variable and the flag \<^verbatim>\<open>stop\<close>. Its behaviour is the
  interleaving of three kinds of threads: the workers (the lambda of lines 15-40), the
  threads that call \<^verbatim>\<open>submit\<close> (lines 47-66), and the thread that destroys the pool
  (lines 69-78, followed by the destruction of the data members). Every thread is a small
  program counter machine; one transition is one statement (or one run of statements that
  touch only the thread's own locals or happen while it holds \<^verbatim>\<open>queue_mutex\<close>).
\<close>

subsection \<open>Tasks and their shared states\<close>

text \<open>
  A callable bound by \<^verbatim>\<open>std::bind\<close> takes no argument; invoking it either throws
  (\<open>Inl\<close>) or returns a value (\<open>Inr\<close>).
\<close>

type_synonym ('e, 'r) callable = "unit \<Rightarrow> 'e + 'r"

text \<open>
  What a \<^verbatim>\<open>std::future\<close> can hand to its reader besides a value: the exception the
  callable threw, or the \<^verbatim>\<open>broken_promise\<close> error that the standard library stores when
  a \<^verbatim>\<open>packaged_task\<close> is destroyed before it was invoked.
\<close>

datatype 'e failure = Thrown 'e | Broken_promise

datatype ('e, 'r) shared_state = Pending | Ready "'e failure + 'r"

text \<open>
  \<^verbatim>\<open>std::packaged_task<return_type()>\<close> (line 50): the bound callable together with the
  shared state that its future reads, named by the address \<open>state_id\<close>. The queue stores the
  closure \<^verbatim>\<open>[task](){ (*task)(); }\<close> (line 62), which only forwards to the packaged task
  it captured, so a queue element is represented by that packaged task.
\<close>

datatype ('e, 'r) packaged_task =
  Packaged_task (callable: "('e, 'r) callable") (state_id: nat)

text \<open>
  \<^verbatim>\<open>packaged_task::operator()\<close>: the callable runs inside the library's try block; what
  it throws is stored as the failure outcome instead of propagating.
\<close>

definition invoke :: "('e, 'r) callable \<Rightarrow> 'e failure + 'r" where
  "invoke f = (case f () of Inl e \<Rightarrow> Inl (Thrown e) | Inr v \<Rightarrow> Inr v)"

datatype error = PoolShutdown

subsection \<open>Threads\<close>

datatype thread = Worker nat | Caller nat | Owner

text \<open>The worker lambda, lines 15-40.\<close>

datatype ('e, 'r) worker =
    W_lock
  | W_wait
  | W_blocked
  | W_locked
  | W_run "('e, 'r) packaged_task"
  | W_exited
  | W_crashed

text \<open>
  \<open>W_lock\<close>: line 20, about to acquire \<^verbatim>\<open>queue_mutex\<close>.
  \<open>W_wait\<close>: lines 23-25, holding the mutex and evaluating the predicate of
  \<^verbatim>\<open>condition.wait\<close>.
  \<open>W_blocked\<close>: inside \<^verbatim>\<open>condition.wait\<close> with the mutex released.
  \<open>W_locked\<close>: lines 28-34, holding the mutex after the predicate was true.
  \<open>W_run t\<close>: line 38, the mutex released and \<open>t\<close> moved out of the queue.
  \<open>W_exited\<close>: line 29, the thread function returned.
  \<open>W_crashed\<close>: the thread function was left abnormally (undefined behaviour of
  \<^verbatim>\<open>front()\<close> on an empty queue, or an exception leaving the lambda).
\<close>

text \<open>A thread inside \<^verbatim>\<open>submit\<close>, lines 47-66.\<close>

datatype ('e, 'r) caller =
    C_idle
  | S_lock "('e, 'r) packaged_task"
  | S_locked "('e, 'r) packaged_task"
  | S_notify nat
  | S_returned nat
  | S_thrown error

text \<open>
  \<open>C_idle\<close>: not in a call.
  \<open>S_lock t\<close>: lines 50-54 done (\<open>t\<close> and its future exist), about to lock (line 56).
  \<open>S_locked t\<close>: lines 58-62, holding the mutex.
  \<open>S_notify h\<close>: line 64, the task is in the queue and the mutex is released.
  \<open>S_returned h\<close>: line 65, the future on shared state \<open>h\<close> was returned.
  \<open>S_thrown e\<close>: line 59, the call was left by the exception.
\<close>

text \<open>The destructor, lines 69-78, and the destruction of the members after its body.\<close>

datatype dtor = D_alive | D_locked | D_notify | D_join nat | D_destroyed

text \<open>
  What happens to the shared data, as history: \<open>Enqueued t\<close> is line 62, \<open>Rejected c\<close>
  line 59 in the call of thread \<open>c\<close>, \<open>Dequeued i t\<close> lines 33-34 in worker \<open>i\<close>,
  \<open>Executed i t\<close> line 38, \<open>Exited i\<close> line 29, \<open>Notify_one\<close> line 64, \<open>Stop_set\<close>
  line 72, \<open>Notify_all\<close> line 74, \<open>Joined i\<close> line 76, \<open>Abandoned t\<close> the destruction
  of a closure that is still queued, \<open>Crashed i\<close> an abnormal end of worker \<open>i\<close>.
\<close>

datatype ('e, 'r) event =
    Enqueued "('e, 'r) packaged_task"
  | Rejected nat
  | Dequeued nat "('e, 'r) packaged_task"
  | Executed nat "('e, 'r) packaged_task"
  | Exited nat
  | Crashed nat
  | Notify_one
  | Notify_all
  | Stop_set
  | Joined nat
  | Abandoned "('e, 'r) packaged_task"

text \<open>
  The data members of the class (\<open>workers\<close>, \<open>tasks\<close>, \<open>queue_mutex\<close>, \<open>stop\<close>; the
  threads waiting on \<^verbatim>\<open>condition\<close> are the workers at \<open>W_blocked\<close>), the heap of shared
  states with its allocation counter, the threads outside the pool, and the history of
  what has happened (\<open>trace\<close>), which no transition reads.
\<close>

record ('e, 'r) sys =
  workers :: "('e, 'r) worker list"
  tasks :: "('e, 'r) packaged_task list"
  queue_mutex :: "thread option"
  stop :: bool
  futures :: "nat \<Rightarrow> ('e, 'r) shared_state option"
  next_state :: nat
  callers :: "nat \<Rightarrow> ('e, 'r) caller"
  owner :: dtor
  trace :: "('e, 'r) event list"

subsection \<open>Construction\<close>

text \<open>
  Lines 12-42: \<^verbatim>\<open>stop(false)\<close>, the other members default-constructed, then the loop
  \<^verbatim>\<open>for (i = 0; i < num_threads; ++i)\<close> starts one thread per iteration, each at the top
  of its \<^verbatim>\<open>while (true)\<close>. There is no check of \<^verbatim>\<open>num_threads\<close> and no \<^verbatim>\<open>throw\<close>.
\<close>

definition ThreadPool :: "nat \<Rightarrow> ('e, 'r) sys" where
  "ThreadPool num_threads =
    \<lparr> workers = replicate num_threads W_lock,
      tasks = [],
      queue_mutex = None,
      stop = False,
      futures = (\<lambda>_. None),
      next_state = 0,
      callers = (\<lambda>_. C_idle),
      owner = D_alive,
      trace = [] \<rparr>"

subsection \<open>The condition variable\<close>

fun first_blocked :: "('e, 'r) worker list \<Rightarrow> nat option" where
  "first_blocked [] = None"
| "first_blocked (w # ws) =
    (case w of W_blocked \<Rightarrow> Some 0 | _ \<Rightarrow> map_option Suc (first_blocked ws))"

text \<open>
  \<^verbatim>\<open>notify_one\<close> unblocks one of the waiting threads, if there is any; which one is not
  specified, so the schedule proposes \<open>k\<close>. A woken thread has to lock the mutex again and
  re-evaluate the predicate, which is the state \<open>W_lock\<close>.
\<close>

definition notify_one :: "nat \<Rightarrow> ('e, 'r) worker list \<Rightarrow> ('e, 'r) worker list" where
  "notify_one k ws =
    (if k < length ws \<and> ws ! k = W_blocked then ws[k := W_lock]
     else case first_blocked ws of None \<Rightarrow> ws | Some j \<Rightarrow> ws[j := W_lock])"

definition notify_all :: "('e, 'r) worker list \<Rightarrow> ('e, 'r) worker list" where
  "notify_all ws = map (\<lambda>w. case w of W_blocked \<Rightarrow> W_lock | _ \<Rightarrow> w) ws"

subsection \<open>The worker loop\<close>

definition worker_step :: "nat \<Rightarrow> ('e, 'r) sys \<Rightarrow> ('e, 'r) sys option" where
  "worker_step i s =
    (if length (workers s) \<le> i then None
     else case workers s ! i of
       W_lock \<Rightarrow>
         (if queue_mutex s = None
          then Some (s\<lparr>queue_mutex := Some (Worker i), workers := (workers s)[i := W_wait]\<rparr>)
          else None)
     | W_wait \<Rightarrow>
         (if stop s \<or> tasks s \<noteq> []
          then Some (s\<lparr>workers := (workers s)[i := W_locked]\<rparr>)
          else Some (s\<lparr>queue_mutex := None, workers := (workers s)[i := W_blocked]\<rparr>))
     | W_blocked \<Rightarrow> None
     | W_locked \<Rightarrow>
         (if stop s \<and> tasks s = []
          then Some (s\<lparr>queue_mutex := None, workers := (workers s)[i := W_exited],
                       trace := trace s @ [Exited i]\<rparr>)
          else case tasks s of
            [] \<Rightarrow> Some (s\<lparr>queue_mutex := None, workers := (workers s)[i := W_crashed],
                          trace := trace s @ [Crashed i]\<rparr>)
          | t # ts \<Rightarrow>
              Some (s\<lparr>tasks := ts, queue_mutex := None, workers := (workers s)[i := W_run t],
                      trace := trace s @ [Dequeued i t]\<rparr>))
     | W_run t \<Rightarrow>
         (case futures s (state_id t) of
            Some Pending \<Rightarrow>
              Some (s\<lparr>futures := (futures s)(state_id t \<mapsto> Ready (invoke (callable t))),
                      workers := (workers s)[i := W_lock],
                      trace := trace s @ [Executed i t]\<rparr>)
          | _ \<Rightarrow> Some (s\<lparr>workers := (workers s)[i := W_crashed],
                          trace := trace s @ [Crashed i]\<rparr>))
     | W_exited \<Rightarrow> None
     | W_crashed \<Rightarrow> None)"

text \<open>
  \<open>W_wait\<close> is \<^verbatim>\<open>condition.wait(lock, pred)\<close>: with the predicate false the thread
  releases the mutex and blocks in one atomic step. \<open>W_locked\<close> is lines 28-35: return when
  stopped and empty, otherwise \<^verbatim>\<open>front()\<close>, \<^verbatim>\<open>pop()\<close> and the end of the locked block.
  \<open>W_run\<close> is line 38: a packaged task whose shared state is still pending stores the
  outcome of its callable; on any other shared state \<^verbatim>\<open>operator()\<close> throws
  \<^verbatim>\<open>std::future_error\<close>, which nothing in the lambda catches.
\<close>

text \<open>A thread blocked in \<^verbatim>\<open>wait\<close> may also wake up without a notification.\<close>

definition spurious_wakeup :: "nat \<Rightarrow> ('e, 'r) sys \<Rightarrow> ('e, 'r) sys option" where
  "spurious_wakeup i s =
    (if i < length (workers s) \<and> workers s ! i = W_blocked
     then Some (s\<lparr>workers := (workers s)[i := W_lock]\<rparr>)
     else None)"

subsection \<open>submit\<close>

definition in_call :: "('e, 'r) caller \<Rightarrow> bool" where
  "in_call c = (case c of S_lock _ \<Rightarrow> True | S_locked _ \<Rightarrow> True | S_notify _ \<Rightarrow> True | _ \<Rightarrow> False)"

text \<open>
  Lines 50-54: the packaged task and its future are made before the mutex is taken and
  before \<open>stop\<close> is looked at.
\<close>

definition submit_begin :: "nat \<Rightarrow> ('e, 'r) callable \<Rightarrow> ('e, 'r) sys \<Rightarrow> ('e, 'r) sys option" where
  "submit_begin c f s =
    (if in_call (callers s c) \<or> owner s = D_destroyed then None
     else Some (s\<lparr>futures := (futures s)(next_state s \<mapsto> Pending),
                  next_state := Suc (next_state s),
                  callers := (callers s)(c := S_lock (Packaged_task f (next_state s)))\<rparr>))"

definition submit_step :: "nat \<Rightarrow> nat \<Rightarrow> ('e, 'r) sys \<Rightarrow> ('e, 'r) sys option" where
  "submit_step c k s =
    (if owner s = D_destroyed then None
     else case callers s c of
       S_lock t \<Rightarrow>
         (if queue_mutex s = None
          then Some (s\<lparr>queue_mutex := Some (Caller c), callers := (callers s)(c := S_locked t)\<rparr>)
          else None)
     | S_locked t \<Rightarrow>
         (if stop s
          then Some (s\<lparr>queue_mutex := None,
                       futures := (futures s)(state_id t := None),
                       callers := (callers s)(c := S_thrown PoolShutdown),
                       trace := trace s @ [Rejected c]\<rparr>)
          else Some (s\<lparr>tasks := tasks s @ [t],
                       queue_mutex := None,
                       callers := (callers s)(c := S_notify (state_id t)),
                       trace := trace s @ [Enqueued t]\<rparr>))
     | S_notify h \<Rightarrow>
         Some (s\<lparr>workers := notify_one k (workers s),
                 callers := (callers s)(c := S_returned h),
                 trace := trace s @ [Notify_one]\<rparr>)
     | _ \<Rightarrow> None)"

text \<open>
  In \<open>S_locked\<close> with \<open>stop\<close> set, line 59 throws: unwinding unlocks the mutex and destroys
  \<^verbatim>\<open>res\<close> and \<^verbatim>\<open>task\<close>, the only owners of the shared state, which is freed. Otherwise
  line 62 appends the closure and line 63 unlocks. \<open>S_notify\<close> is lines 64-65.
\<close>

subsection \<open>Destruction\<close>

text \<open>
  Destroying a queued closure destroys the packaged task it owns; a packaged task that was
  never invoked abandons its shared state, which makes it ready with \<^verbatim>\<open>broken_promise\<close>.
\<close>

definition abandon :: "('e, 'r) shared_state option \<Rightarrow> ('e, 'r) shared_state option" where
  "abandon st = (case st of Some Pending \<Rightarrow> Some (Ready (Inl Broken_promise)) | _ \<Rightarrow> st)"

fun destroy_tasks ::
  "('e, 'r) packaged_task list \<Rightarrow> (nat \<Rightarrow> ('e, 'r) shared_state option)
    \<Rightarrow> (nat \<Rightarrow> ('e, 'r) shared_state option)" where
  "destroy_tasks [] fs = fs"
| "destroy_tasks (t # ts) fs = destroy_tasks ts (fs(state_id t := abandon (fs (state_id t))))"

definition dtor_step :: "('e, 'r) sys \<Rightarrow> ('e, 'r) sys option" where
  "dtor_step s =
    (case owner s of
       D_alive \<Rightarrow>
         (if queue_mutex s = None
          then Some (s\<lparr>queue_mutex := Some Owner, owner := D_locked\<rparr>)
          else None)
     | D_locked \<Rightarrow>
         Some (s\<lparr>stop := True, queue_mutex := None, owner := D_notify,
                 trace := trace s @ [Stop_set]\<rparr>)
     | D_notify \<Rightarrow>
         Some (s\<lparr>workers := notify_all (workers s), owner := D_join 0,
                 trace := trace s @ [Notify_all]\<rparr>)
     | D_join i \<Rightarrow>
         (if i < length (workers s)
          then (if workers s ! i = W_exited
                then Some (s\<lparr>owner := D_join (Suc i), trace := trace s @ [Joined i]\<rparr>)
                else None)
          else Some (s\<lparr>futures := destroy_tasks (tasks s) (futures s),
                       tasks := [],
                       owner := D_destroyed,
                       trace := trace s @ map Abandoned (tasks s)\<rparr>))
     | D_destroyed \<Rightarrow> None)"

text \<open>
  \<open>D_alive\<close>: line 71. \<open>D_locked\<close>: lines 72-73. \<open>D_notify\<close>: line 74. \<open>D_join i\<close>: one
  iteration of lines 75-77, which blocks until worker \<open>i\<close> has returned; after the last
  iteration the destructor body ends and the members are destroyed, among them \<open>tasks\<close>
  with whatever is still queued.
\<close>

subsection \<open>Schedules\<close>

datatype ('e, 'r) action =
    Submit nat "('e, 'r) callable"
  | In_submit nat nat
  | Work nat
  | Spurious nat
  | Destroy

fun step :: "('e, 'r) action \<Rightarrow> ('e, 'r) sys \<Rightarrow> ('e, 'r) sys option" where
  "step (Submit c f) s = submit_begin c f s"
| "step (In_submit c k) s = submit_step c k s"
| "step (Work i) s = worker_step i s"
| "step (Spurious i) s = spurious_wakeup i s"
| "step Destroy s = dtor_step s"

fun exec :: "('e, 'r) action list \<Rightarrow> ('e, 'r) sys \<Rightarrow> ('e, 'r) sys option" where
  "exec [] s = Some s"
| "exec (a # as) s = (case step a s of None \<Rightarrow> None | Some s' \<Rightarrow> exec as s')"

text \<open>\<^verbatim>\<open>future::get\<close>: blocks (\<open>None\<close>) while the shared state is not ready.\<close>

definition future_get :: "nat \<Rightarrow> ('e, 'r) sys \<Rightarrow> ('e failure + 'r) option" where
  "future_get h s = (case futures s h of Some (Ready r) \<Rightarrow> Some r | _ \<Rightarrow> None)"

text \<open>How a call of \<^verbatim>\<open>submit\<close> by thread \<open>c\<close> ended, if it has ended.\<close>

definition call_result :: "nat \<Rightarrow> ('e, 'r) sys \<Rightarrow> (error + nat) option" where
  "call_result c s =
    (case callers s c of S_returned h \<Rightarrow> Some (Inr h) | S_thrown e \<Rightarrow> Some (Inl e) | _ \<Rightarrow> None)"

text \<open>
  A whole call of \<^verbatim>\<open>submit\<close> with no other thread running in between: lines 50-54,
  the lock, the locked block, and the notification unless line 59 has thrown.
\<close>

definition submit :: "nat \<Rightarrow> ('e, 'r) callable \<Rightarrow> ('e, 'r) sys \<Rightarrow> ('e, 'r) sys option" where
  "submit c f s =
    (case exec [Submit c f, In_submit c 0, In_submit c 0] s of
       None \<Rightarrow> None
     | Some s' \<Rightarrow> if in_call (callers s' c) then step (In_submit c 0) s' else Some s')"

text \<open>Two callables for concrete runs: one that returns, one that throws.\<close>

definition returning :: "'r \<Rightarrow> ('e, 'r) callable" where
  "returning v = (\<lambda>_. Inr v)"

definition throwing :: "'e \<Rightarrow> ('e, 'r) callable" where
  "throwing e = (\<lambda>_. Inl e)"

section \<open>Invariants of the reachable states\<close>

subsection \<open>Who is inside a locked block\<close>

fun holds_mutex :: "thread \<Rightarrow> ('e, 'r) sys \<Rightarrow> bool" where
  "holds_mutex (Worker i) s =
    (i < length (workers s) \<and> (workers s ! i = W_wait \<or> workers s ! i = W_locked))"
| "holds_mutex (Caller c) s = (case callers s c of S_locked _ \<Rightarrow> True | _ \<Rightarrow> False)"
| "holds_mutex Owner s = (owner s = D_locked)"

definition inv_mutex :: "('e, 'r) sys \<Rightarrow> bool" where
  "inv_mutex s = (\<forall>th. holds_mutex th s = (queue_mutex s = Some th))"

definition inv_stop :: "('e, 'r) sys \<Rightarrow> bool" where
  "inv_stop s = (stop s = (owner s \<noteq> D_alive \<and> owner s \<noteq> D_locked))"

definition inv_join :: "('e, 'r) sys \<Rightarrow> bool" where
  "inv_join s =
    ((\<forall>k. owner s = D_join k \<longrightarrow>
        (\<forall>j<k. j < length (workers s) \<longrightarrow> workers s ! j = W_exited))
     \<and> (owner s = D_destroyed \<longrightarrow> (\<forall>j<length (workers s). workers s ! j = W_exited)))"

definition inv_pred :: "('e, 'r) sys \<Rightarrow> bool" where
  "inv_pred s =
    (\<forall>i<length (workers s). workers s ! i = W_locked \<longrightarrow> stop s \<or> tasks s \<noteq> [])"

definition inv_exit :: "('e, 'r) sys \<Rightarrow> bool" where
  "inv_exit s =
    (\<forall>i<length (workers s). workers s ! i = W_exited \<longrightarrow> stop s \<and> tasks s = [])"

definition inv_ctl :: "('e, 'r) sys \<Rightarrow> bool" where
  "inv_ctl s = (inv_mutex s \<and> inv_stop s \<and> inv_join s \<and> inv_pred s \<and> inv_exit s)"

subsection \<open>What the history says about the tasks\<close>

fun enq_of :: "('e, 'r) event \<Rightarrow> ('e, 'r) packaged_task list" where
  "enq_of (Enqueued t) = [t]"
| "enq_of _ = []"

fun deq_of :: "('e, 'r) event \<Rightarrow> ('e, 'r) packaged_task list" where
  "deq_of (Dequeued i t) = [t]"
| "deq_of _ = []"

fun exe_of :: "('e, 'r) event \<Rightarrow> ('e, 'r) packaged_task list" where
  "exe_of (Executed i t) = [t]"
| "exe_of _ = []"

fun abn_of :: "('e, 'r) event \<Rightarrow> ('e, 'r) packaged_task list" where
  "abn_of (Abandoned t) = [t]"
| "abn_of _ = []"

text \<open>
  The tasks in the order in which they were appended to the queue, taken from its front,
  invoked, and destroyed without having been invoked.
\<close>

definition enqueued :: "('e, 'r) event list \<Rightarrow> ('e, 'r) packaged_task list" where
  "enqueued tr = concat (map enq_of tr)"

definition dequeued :: "('e, 'r) event list \<Rightarrow> ('e, 'r) packaged_task list" where
  "dequeued tr = concat (map deq_of tr)"

definition executed :: "('e, 'r) event list \<Rightarrow> ('e, 'r) packaged_task list" where
  "executed tr = concat (map exe_of tr)"

definition abandoned :: "('e, 'r) event list \<Rightarrow> ('e, 'r) packaged_task list" where
  "abandoned tr = concat (map abn_of tr)"

text \<open>The task a worker has taken and not yet run; the task a call has made and not yet queued.\<close>

fun run_of :: "('e, 'r) worker \<Rightarrow> ('e, 'r) packaged_task list" where
  "run_of (W_run t) = [t]"
| "run_of _ = []"

fun held :: "('e, 'r) caller \<Rightarrow> ('e, 'r) packaged_task option" where
  "held (S_lock t) = Some t"
| "held (S_locked t) = Some t"
| "held _ = None"

subsection \<open>The data invariants\<close>

definition inv_queue :: "('e, 'r) sys \<Rightarrow> bool" where
  "inv_queue s =
    (enqueued (trace s) = dequeued (trace s) @ tasks s @ abandoned (trace s)
     \<and> distinct (map state_id (enqueued (trace s)))
     \<and> (\<forall>t\<in>set (enqueued (trace s)). state_id t < next_state s)
     \<and> (owner s \<noteq> D_destroyed \<longrightarrow> abandoned (trace s) = []))"

definition inv_held :: "('e, 'r) sys \<Rightarrow> bool" where
  "inv_held s =
    (\<forall>c t. held (callers s c) = Some t \<longrightarrow>
       state_id t < next_state s
       \<and> state_id t \<notin> state_id ` set (enqueued (trace s))
       \<and> (\<forall>c' t'. held (callers s c') = Some t' \<longrightarrow> state_id t' = state_id t \<longrightarrow> c' = c))"

definition inv_exec :: "('e, 'r) sys \<Rightarrow> bool" where
  "inv_exec s =
    (set (executed (trace s)) \<subseteq> set (dequeued (trace s))
     \<and> distinct (executed (trace s))
     \<and> (\<forall>t\<in>set (dequeued (trace s)).
          t \<in> set (executed (trace s)) \<or> (\<exists>i<length (workers s). workers s ! i = W_run t))
     \<and> (\<forall>i<length (workers s). \<forall>t. workers s ! i = W_run t \<longrightarrow>
          t \<in> set (dequeued (trace s)) \<and> t \<notin> set (executed (trace s))
          \<and> (\<forall>j<length (workers s). workers s ! j = W_run t \<longrightarrow> j = i)))"

definition inv_futures :: "('e, 'r) sys \<Rightarrow> bool" where
  "inv_futures s =
    ((\<forall>t\<in>set (tasks s). futures s (state_id t) = Some Pending)
     \<and> (\<forall>i<length (workers s). \<forall>t. workers s ! i = W_run t \<longrightarrow>
          futures s (state_id t) = Some Pending)
     \<and> (\<forall>c t. held (callers s c) = Some t \<longrightarrow> futures s (state_id t) = Some Pending)
     \<and> (\<forall>t\<in>set (executed (trace s)).
          futures s (state_id t) = Some (Ready (invoke (callable t))))
     \<and> (\<forall>t\<in>set (abandoned (trace s)).
          futures s (state_id t) = Some (Ready (Inl Broken_promise))))"

definition inv_crash :: "('e, 'r) sys \<Rightarrow> bool" where
  "inv_crash s =
    ((\<forall>i<length (workers s). workers s ! i \<noteq> W_crashed) \<and> (\<forall>i. Crashed i \<notin> set (trace s)))"

definition inv_single :: "('e, 'r) sys \<Rightarrow> bool" where
  "inv_single s =
    (length (workers s) = 1 \<longrightarrow>
       dequeued (trace s) = executed (trace s) @ run_of (workers s ! 0))"

definition inv :: "('e, 'r) sys \<Rightarrow> bool" where
  "inv s = (inv_ctl s \<and> inv_queue s \<and> inv_held s \<and> inv_exec s \<and> inv_futures s
            \<and> inv_crash s \<and> inv_single s)"

subsection \<open>Teardown\<close>

text \<open>Shared states that were never allocated are absent from the heap.\<close>

definition inv_fresh :: "('e, 'r) sys \<Rightarrow> bool" where
  "inv_fresh s = (\<forall>h. next_state s \<le> h \<longrightarrow> futures s h = None)"

text \<open>A pool that has a worker never destroys a task that is still queued.\<close>

definition inv_drained :: "('e, 'r) sys \<Rightarrow> bool" where
  "inv_drained s = (workers s \<noteq> [] \<longrightarrow> abandoned (trace s) = [])"

text \<open>
  The flag is set once, the broadcast follows once, and from the broadcast on no worker
  is blocked in \<^verbatim>\<open>wait\<close>.
\<close>

definition past_broadcast :: "dtor \<Rightarrow> bool" where
  "past_broadcast d = (case d of D_join _ \<Rightarrow> True | D_destroyed \<Rightarrow> True | _ \<Rightarrow> False)"

definition inv_signals :: "('e, 'r) sys \<Rightarrow> bool" where
  "inv_signals s =
    (count_list (trace s) Stop_set = (if stop s then 1 else 0)
     \<and> count_list (trace s) Notify_all = (if past_broadcast (owner s) then 1 else 0)
     \<and> (past_broadcast (owner s) \<longrightarrow>
          (\<forall>i<length (workers s). workers s ! i \<noteq> W_blocked)))"

subsection \<open>Schedules for concrete runs\<close>

text \<open>
  A whole call of \<^verbatim>\<open>submit\<close> by thread \<open>c\<close>; one turn of worker \<open>i\<close> through its loop
  (lock, predicate, take, run); its last turn (lock, predicate, return).
\<close>

definition call :: "nat \<Rightarrow> ('e, 'r) callable \<Rightarrow> ('e, 'r) action list" where
  "call c f = [Submit c f, In_submit c 0, In_submit c 0, In_submit c 0]"

definition serve :: "nat \<Rightarrow> ('e, 'r) action list" where
  "serve i = [Work i, Work i, Work i, Work i]"

definition leave :: "nat \<Rightarrow> ('e, 'r) action list" where
  "leave i = [Work i, Work i, Work i]"

subsection \<open>The join loop and what is left for the member destructors\<close>

definition inv_joining :: "('e, 'r) sys \<Rightarrow> bool" where
  "inv_joining s =
    ((\<forall>k. owner s = D_join k \<longrightarrow> k \<le> length (workers s))
     \<and> (owner s = D_destroyed \<longrightarrow> tasks s = [])
     \<and> (workers s = [] \<longrightarrow> dequeued (trace s) = [] \<and> executed (trace s) = []))"

subsection \<open>Progress\<close>

text \<open>Some schedule leads from \<open>s\<close> to \<open>s'\<close>.\<close>

definition reaches :: "('e, 'r) sys \<Rightarrow> ('e, 'r) sys \<Rightarrow> bool" where
  "reaches s s' = (\<exists>bs. exec bs s = Some s')"

definition good :: "('e, 'r) sys \<Rightarrow> bool" where
  "good s = (inv s \<and> inv_fresh s \<and> inv_drained s \<and> inv_signals s \<and> inv_joining s)"

text \<open>How far worker \<open>j\<close> is from the end of its current turn through the loop.\<close>

fun rank :: "('e, 'r) worker \<Rightarrow> nat" where
  "rank (W_run t) = 3"
| "rank W_lock = 2"
| "rank W_wait = 1"
| "rank _ = 0"

subsection \<open>Calls in flight and the join loop\<close>

text \<open>The shared state at address \<open>h\<close>, if it is allocated.\<close>

definition state_of :: "nat \<Rightarrow> ('e, 'r) sys \<Rightarrow> ('e, 'r) shared_state option" where
  "state_of h s = futures s h"

text \<open>
  A call that is past the locked block of \<^verbatim>\<open>submit\<close> without having thrown has put its
  task into the queue.
\<close>

definition inv_returned :: "('e, 'r) sys \<Rightarrow> bool" where
  "inv_returned s =
    (\<forall>c h. callers s c = S_notify h \<or> callers s c = S_returned h
        \<longrightarrow> h \<in> state_id ` set (enqueued (trace s)))"

text \<open>
  The shared state \<open>h\<close> belongs to a call that began when \<open>stop\<close> was already set: it
  was allocated, it is not the state of any task that entered the queue, and it holds no
  outcome.
\<close>

definition rejecting :: "nat \<Rightarrow> ('e, 'r) sys \<Rightarrow> bool" where
  "rejecting h s =
    (stop s \<and> h < next_state s \<and> future_get h s = None
     \<and> h \<notin> state_id ` set (enqueued (trace s)))"

text \<open>
  The join loop has joined worker \<open>i\<close> once if it is past \<open>i\<close>, and not at all
  otherwise; nothing is joined before the broadcast.
\<close>

definition joined_upto :: "dtor \<Rightarrow> nat \<Rightarrow> nat" where
  "joined_upto d n = (case d of D_join k \<Rightarrow> k | D_destroyed \<Rightarrow> n | _ \<Rightarrow> 0)"

definition inv_joined :: "('e, 'r) sys \<Rightarrow> bool" where
  "inv_joined s =
    (\<forall>i. count_list (trace s) (Joined i)
            = (if i < joined_upto (owner s) (length (workers s)) then 1 else 0))"

section \<open>A step, case by case\<close>

lemma worker_stepE:
  assumes "worker_step i s = Some s'"
  obtains
    (lock) "i < length (workers s)" "workers s ! i = W_lock" "queue_mutex s = None"
      "s' = s\<lparr>queue_mutex := Some (Worker i), workers := (workers s)[i := W_wait]\<rparr>"
  | (proceed) "i < length (workers s)" "workers s ! i = W_wait" "stop s \<or> tasks s \<noteq> []"
      "s' = s\<lparr>workers := (workers s)[i := W_locked]\<rparr>"
  | (block) "i < length (workers s)" "workers s ! i = W_wait" "\<not> stop s" "tasks s = []"
      "s' = s\<lparr>queue_mutex := None, workers := (workers s)[i := W_blocked]\<rparr>"
  | (exit) "i < length (workers s)" "workers s ! i = W_locked" "stop s" "tasks s = []"
      "s' = s\<lparr>queue_mutex := None, workers := (workers s)[i := W_exited],
              trace := trace s @ [Exited i]\<rparr>"
  | (front_empty) "i < length (workers s)" "workers s ! i = W_locked" "\<not> stop s" "tasks s = []"
      "s' = s\<lparr>queue_mutex := None, workers := (workers s)[i := W_crashed],
              trace := trace s @ [Crashed i]\<rparr>"
  | (take) t ts where "i < length (workers s)" "workers s ! i = W_locked" "tasks s = t # ts"
      "s' = s\<lparr>tasks := ts, queue_mutex := None, workers := (workers s)[i := W_run t],
              trace := trace s @ [Dequeued i t]\<rparr>"
  | (run) t where "i < length (workers s)" "workers s ! i = W_run t"
      "futures s (state_id t) = Some Pending"
      "s' = s\<lparr>futures := (futures s)(state_id t \<mapsto> Ready (invoke (callable t))),
              workers := (workers s)[i := W_lock],
              trace := trace s @ [Executed i t]\<rparr>"
  | (escape) t where "i < length (workers s)" "workers s ! i = W_run t"
      "futures s (state_id t) \<noteq> Some Pending"
      "s' = s\<lparr>workers := (workers s)[i := W_crashed], trace := trace s @ [Crashed i]\<rparr>"
proof (cases "workers s ! i")
  case W_lock
  with assms lock show ?thesis by (simp add: worker_step_def split: if_splits)
next
  case W_wait
  with assms proceed block show ?thesis
    by (auto simp add: worker_step_def split: if_splits)
next
  case W_blocked
  with assms show ?thesis by (simp add: worker_step_def split: if_splits)
next
  case W_locked
  show ?thesis
  proof (cases "tasks s")
    case Nil
    with assms W_locked exit front_empty show ?thesis
      by (auto simp add: worker_step_def split: if_splits)
  next
    case (Cons t ts)
    with assms W_locked take show ?thesis
      by (simp add: worker_step_def split: if_splits)
  qed
next
  case (W_run t)
  show ?thesis
  proof (cases "futures s (state_id t) = Some Pending")
    case True
    with assms W_run run show ?thesis
      by (simp add: worker_step_def split: if_splits)
  next
    case False
    with assms W_run escape[of t] show ?thesis
      by (simp add: worker_step_def split: if_splits option.splits shared_state.splits)
  qed
next
  case W_exited
  with assms show ?thesis by (simp add: worker_step_def split: if_splits)
next
  case W_crashed
  with assms show ?thesis by (simp add: worker_step_def split: if_splits)
qed


lemma spurious_wakeupE:
  assumes "spurious_wakeup i s = Some s'"
  obtains "i < length (workers s)" "workers s ! i = W_blocked"
    "s' = s\<lparr>workers := (workers s)[i := W_lock]\<rparr>"
  using assms by (auto simp: spurious_wakeup_def split: if_splits)

lemma submit_beginE:
  assumes "submit_begin c f s = Some s'"
  obtains "\<not> in_call (callers s c)" "owner s \<noteq> D_destroyed"
    "s' = s\<lparr>futures := (futures s)(next_state s \<mapsto> Pending),
            next_state := Suc (next_state s),
            callers := (callers s)(c := S_lock (Packaged_task f (next_state s)))\<rparr>"
  using assms by (auto simp: submit_begin_def split: if_splits)

lemma submit_stepE:
  assumes "submit_step c k s = Some s'"
  obtains
    (s_lock) t where "owner s \<noteq> D_destroyed" "callers s c = S_lock t" "queue_mutex s = None"
      "s' = s\<lparr>queue_mutex := Some (Caller c), callers := (callers s)(c := S_locked t)\<rparr>"
  | (throw) t where "owner s \<noteq> D_destroyed" "callers s c = S_locked t" "stop s"
      "s' = s\<lparr>queue_mutex := None,
              futures := (futures s)(state_id t := None),
              callers := (callers s)(c := S_thrown PoolShutdown),
              trace := trace s @ [Rejected c]\<rparr>"
  | (emplace) t where "owner s \<noteq> D_destroyed" "callers s c = S_locked t" "\<not> stop s"
      "s' = s\<lparr>tasks := tasks s @ [t],
              queue_mutex := None,
              callers := (callers s)(c := S_notify (state_id t)),
              trace := trace s @ [Enqueued t]\<rparr>"
  | (notify) h where "owner s \<noteq> D_destroyed" "callers s c = S_notify h"
      "s' = s\<lparr>workers := notify_one k (workers s),
              callers := (callers s)(c := S_returned h),
              trace := trace s @ [Notify_one]\<rparr>"
proof (cases "callers s c")
  case C_idle
  with assms show ?thesis by (simp add: submit_step_def split: if_splits)
next
  case (S_lock t)
  with assms s_lock[of t] show ?thesis by (simp add: submit_step_def split: if_splits)
next
  case (S_locked t)
  with assms throw[of t] emplace[of t] show ?thesis
    by (auto simp add: submit_step_def split: if_splits)
next
  case (S_notify h)
  with assms notify[of h] show ?thesis by (simp add: submit_step_def split: if_splits)
next
  case (S_returned h)
  with assms show ?thesis by (simp add: submit_step_def split: if_splits)
next
  case (S_thrown e)
  with assms show ?thesis by (simp add: submit_step_def split: if_splits)
qed

lemma dtor_stepE:
  assumes "dtor_step s = Some s'"
  obtains
    (d_lock) "owner s = D_alive" "queue_mutex s = None"
      "s' = s\<lparr>queue_mutex := Some Owner, owner := D_locked\<rparr>"
  | (set_stop) "owner s = D_locked"
      "s' = s\<lparr>stop := True, queue_mutex := None, owner := D_notify,
              trace := trace s @ [Stop_set]\<rparr>"
  | (broadcast) "owner s = D_notify"
      "s' = s\<lparr>workers := notify_all (workers s), owner := D_join 0,
              trace := trace s @ [Notify_all]\<rparr>"
  | (join) j where "owner s = D_join j" "j < length (workers s)" "workers s ! j = W_exited"
      "s' = s\<lparr>owner := D_join (Suc j), trace := trace s @ [Joined j]\<rparr>"
  | (members) j where "owner s = D_join j" "length (workers s) \<le> j"
      "s' = s\<lparr>futures := destroy_tasks (tasks s) (futures s),
              tasks := [],
              owner := D_destroyed,
              trace := trace s @ map Abandoned (tasks s)\<rparr>"
proof (cases "owner s")
  case D_alive
  with assms d_lock show ?thesis by (simp add: dtor_step_def split: if_splits)
next
  case D_locked
  with assms set_stop show ?thesis by (simp add: dtor_step_def)
next
  case D_notify
  with assms broadcast show ?thesis by (simp add: dtor_step_def)
next
  case (D_join j)
  with assms join[of j] members[of j] show ?thesis
    by (auto simp add: dtor_step_def split: if_splits)
next
  case D_destroyed
  with assms show ?thesis by (simp add: dtor_step_def)
qed



lemma step_cases [consumes 1, case_names lock proceed block exit front_empty take run escape
    wakeup make s_lock throw emplace notify d_lock set_stop broadcast join members]:
  assumes "step a s = Some s'"
  obtains
    (lock) i where "a = Work i" "i < length (workers s)" "workers s ! i = W_lock"
      "queue_mutex s = None"
      "s' = s\<lparr>queue_mutex := Some (Worker i), workers := (workers s)[i := W_wait]\<rparr>"
  | (proceed) i where "a = Work i" "i < length (workers s)" "workers s ! i = W_wait"
      "stop s \<or> tasks s \<noteq> []"
      "s' = s\<lparr>workers := (workers s)[i := W_locked]\<rparr>"
  | (block) i where "a = Work i" "i < length (workers s)" "workers s ! i = W_wait"
      "\<not> stop s" "tasks s = []"
      "s' = s\<lparr>queue_mutex := None, workers := (workers s)[i := W_blocked]\<rparr>"
  | (exit) i where "a = Work i" "i < length (workers s)" "workers s ! i = W_locked"
      "stop s" "tasks s = []"
      "s' = s\<lparr>queue_mutex := None, workers := (workers s)[i := W_exited],
              trace := trace s @ [Exited i]\<rparr>"
  | (front_empty) i where "a = Work i" "i < length (workers s)" "workers s ! i = W_locked"
      "\<not> stop s" "tasks s = []"
      "s' = s\<lparr>queue_mutex := None, workers := (workers s)[i := W_crashed],
              trace := trace s @ [Crashed i]\<rparr>"
  | (take) i t ts where "a = Work i" "i < length (workers s)" "workers s ! i = W_locked"
      "tasks s = t # ts"
      "s' = s\<lparr>tasks := ts, queue_mutex := None, workers := (workers s)[i := W_run t],
              trace := trace s @ [Dequeued i t]\<rparr>"
  | (run) i t where "a = Work i" "i < length (workers s)" "workers s ! i = W_run t"
      "futures s (state_id t) = Some Pending"
      "s' = s\<lparr>futures := (futures s)(state_id t \<mapsto> Ready (invoke (callable t))),
              workers := (workers s)[i := W_lock],
              trace := trace s @ [Executed i t]\<rparr>"
  | (escape) i t where "a = Work i" "i < length (workers s)" "workers s ! i = W_run t"
      "futures s (state_id t) \<noteq> Some Pending"
      "s' = s\<lparr>workers := (workers s)[i := W_crashed], trace := trace s @ [Crashed i]\<rparr>"
  | (wakeup) i where "a = Spurious i" "i < length (workers s)" "workers s ! i = W_blocked"
      "s' = s\<lparr>workers := (workers s)[i := W_lock]\<rparr>"
  | (make) c f where "a = Submit c f" "\<not> in_call (callers s c)" "owner s \<noteq> D_destroyed"
      "s' = s\<lparr>futures := (futures s)(next_state s \<mapsto> Pending),
              next_state := Suc (next_state s),
              callers := (callers s)(c := S_lock (Packaged_task f (next_state s)))\<rparr>"
  | (s_lock) c k t where "a = In_submit c k" "owner s \<noteq> D_destroyed" "callers s c = S_lock t"
      "queue_mutex s = None"
      "s' = s\<lparr>queue_mutex := Some (Caller c), callers := (callers s)(c := S_locked t)\<rparr>"
  | (throw) c k t where "a = In_submit c k" "owner s \<noteq> D_destroyed" "callers s c = S_locked t"
      "stop s"
      "s' = s\<lparr>queue_mutex := None,
              futures := (futures s)(state_id t := None),
              callers := (callers s)(c := S_thrown PoolShutdown),
              trace := trace s @ [Rejected c]\<rparr>"
  | (emplace) c k t where "a = In_submit c k" "owner s \<noteq> D_destroyed"
      "callers s c = S_locked t" "\<not> stop s"
      "s' = s\<lparr>tasks := tasks s @ [t],
              queue_mutex := None,
              callers := (callers s)(c := S_notify (state_id t)),
              trace := trace s @ [Enqueued t]\<rparr>"
  | (notify) c k h where "a = In_submit c k" "owner s \<noteq> D_destroyed" "callers s c = S_notify h"
      "s' = s\<lparr>workers := notify_one k (workers s),
              callers := (callers s)(c := S_returned h),
              trace := trace s @ [Notify_one]\<rparr>"
  | (d_lock) "a = Destroy" "owner s = D_alive" "queue_mutex s = None"
      "s' = s\<lparr>queue_mutex := Some Owner, owner := D_locked\<rparr>"
  | (set_stop) "a = Destroy" "owner s = D_locked"
      "s' = s\<lparr>stop := True, queue_mutex := None, owner := D_notify,
              trace := trace s @ [Stop_set]\<rparr>"
  | (broadcast) "a = Destroy" "owner s = D_notify"
      "s' = s\<lparr>workers := notify_all (workers s), owner := D_join 0,
              trace := trace s @ [Notify_all]\<rparr>"
  | (join) j where "a = Destroy" "owner s = D_join j" "j < length (workers s)"
      "workers s ! j = W_exited"
      "s' = s\<lparr>owner := D_join (Suc j), trace := trace s @ [Joined j]\<rparr>"
  | (members) j where "a = Destroy" "owner s = D_join j" "length (workers s) \<le> j"
      "s' = s\<lparr>futures := destroy_tasks (tasks s) (futures s),
              tasks := [],
              owner := D_destroyed,
              trace := trace s @ map Abandoned (tasks s)\<rparr>"
proof (cases a)
  case (Submit c f)
  with assms have "submit_begin c f s = Some s'" by simp
  then show ?thesis using Submit make by (elim submit_beginE) blast
next
  case (In_submit c k)
  with assms have "submit_step c k s = Some s'" by simp
  then show ?thesis using In_submit s_lock throw emplace notify
    by (cases rule: submit_stepE) blast+
next
  case (Work i)
  with assms have "worker_step i s = Some s'" by simp
  then show ?thesis using Work lock proceed block exit front_empty take run escape
    by (cases rule: worker_stepE) blast+
next
  case (Spurious i)
  with assms have "spurious_wakeup i s = Some s'" by simp
  then show ?thesis using Spurious wakeup by (elim spurious_wakeupE) blast
next
  case Destroy
  with assms have "dtor_step s = Some s'" by simp
  then show ?thesis using Destroy d_lock set_stop broadcast join members
    by (cases rule: dtor_stepE) blast+
qed

subsection \<open>The condition variable\<close>

lemma first_blocked_Some:
  "first_blocked ws = Some j \<Longrightarrow> j < length ws \<and> ws ! j = W_blocked"
proof (induction ws arbitrary: j)
  case Nil then show ?case by simp
next
  case (Cons w ws)
  then show ?case by (cases w) (auto split: worker.splits)
qed

lemma length_notify_one [simp]: "length (notify_one k ws) = length ws"
  by (simp add: notify_one_def split: option.splits)

lemma length_notify_all [simp]: "length (notify_all ws) = length ws"
  by (simp add: notify_all_def)

lemma nth_notify_all:
  "i < length ws \<Longrightarrow> notify_all ws ! i = (if ws ! i = W_blocked then W_lock else ws ! i)"
  by (auto simp: notify_all_def split: worker.splits)

lemma nth_notify_one:
  assumes "i < length ws"
  shows "notify_one k ws ! i = ws ! i \<or> (ws ! i = W_blocked \<and> notify_one k ws ! i = W_lock)"
proof (cases "k < length ws \<and> ws ! k = W_blocked")
  case True
  then show ?thesis using assms by (cases "i = k") (simp_all add: notify_one_def)
next
  case False
  show ?thesis
  proof (cases "first_blocked ws")
    case None
    with False show ?thesis by (auto simp add: notify_one_def)
  next
    case (Some j)
    with False first_blocked_Some[OF Some] assms show ?thesis
      by (cases "i = j") (auto simp add: notify_one_def)
  qed
qed

lemma notify_one_keeps:
  "i < length ws \<Longrightarrow> ws ! i \<noteq> W_blocked \<Longrightarrow> notify_one k ws ! i = ws ! i"
  using nth_notify_one[of i ws k] by auto

lemma notify_one_eq:
  "i < length ws \<Longrightarrow> w \<noteq> W_lock \<Longrightarrow> w \<noteq> W_blocked
    \<Longrightarrow> (notify_one k ws ! i = w) = (ws ! i = w)"
  using nth_notify_one[of i ws k] by auto

lemma notify_all_eq:
  "i < length ws \<Longrightarrow> w \<noteq> W_lock \<Longrightarrow> w \<noteq> W_blocked
    \<Longrightarrow> (notify_all ws ! i = w) = (ws ! i = w)"
  by (auto simp: nth_notify_all)

subsection \<open>Mutual exclusion\<close>

lemma all_thread: "(\<forall>th. P th) = (P Owner \<and> (\<forall>i. P (Worker i)) \<and> (\<forall>c. P (Caller c)))"
  by (metis thread.exhaust)

lemma mutex_holder: "inv_mutex s \<Longrightarrow> holds_mutex th s \<Longrightarrow> queue_mutex s = Some th"
  unfolding inv_mutex_def by blast

lemma mutex_worker:
  assumes "inv_mutex s" "i < length (workers s)"
    "workers s ! i = W_wait \<or> workers s ! i = W_locked"
  shows "queue_mutex s = Some (Worker i)"
proof (rule mutex_holder[OF assms(1)])
  show "holds_mutex (Worker i) s" using assms(2,3) by simp
qed

lemma mutex_caller:
  assumes "inv_mutex s" "callers s c = S_locked t"
  shows "queue_mutex s = Some (Caller c)"
proof (rule mutex_holder[OF assms(1)])
  show "holds_mutex (Caller c) s" using assms(2) by simp
qed

lemma mutex_owner:
  assumes "inv_mutex s" "owner s = D_locked"
  shows "queue_mutex s = Some Owner"
proof (rule mutex_holder[OF assms(1)])
  show "holds_mutex Owner s" using assms(2) by simp
qed

lemma inv_mutex_step:
  assumes "inv_mutex s" "step a s = Some s'"
  shows "inv_mutex s'"
proof -
  have inv: "holds_mutex th s = (queue_mutex s = Some th)" for th
    using assms(1) unfolding inv_mutex_def by simp
  show ?thesis using assms(2)
  proof (cases rule: step_cases)
    case (lock i)
    have *: "holds_mutex th s' = (th = Worker i \<or> holds_mutex th s)" for th
      using lock(2,5) by (cases th) (auto simp: nth_list_update)
    show ?thesis unfolding inv_mutex_def * inv using lock(4,5) by auto
  next
    case (proceed i)
    have m: "queue_mutex s = Some (Worker i)" using mutex_worker[OF assms(1)] proceed(2,3) by simp
    have *: "holds_mutex th s' = (th = Worker i \<or> holds_mutex th s)" for th
      using proceed(2,5) by (cases th) (auto simp: nth_list_update)
    show ?thesis unfolding inv_mutex_def * inv using m proceed(5) by auto
  next
    case (block i)
    have m: "queue_mutex s = Some (Worker i)" using mutex_worker[OF assms(1)] block(2,3) by simp
    have *: "holds_mutex th s' = (th \<noteq> Worker i \<and> holds_mutex th s)" for th
      using block(2,6) by (cases th) (auto simp: nth_list_update)
    show ?thesis unfolding inv_mutex_def * inv using m block(6) by auto
  next
    case (exit i)
    have m: "queue_mutex s = Some (Worker i)" using mutex_worker[OF assms(1)] exit(2,3) by simp
    have *: "holds_mutex th s' = (th \<noteq> Worker i \<and> holds_mutex th s)" for th
      using exit(2,6) by (cases th) (auto simp: nth_list_update)
    show ?thesis unfolding inv_mutex_def * inv using m exit(6) by auto
  next
    case (front_empty i)
    have m: "queue_mutex s = Some (Worker i)"
      using mutex_worker[OF assms(1)] front_empty(2,3) by simp
    have *: "holds_mutex th s' = (th \<noteq> Worker i \<and> holds_mutex th s)" for th
      using front_empty(2,6) by (cases th) (auto simp: nth_list_update)
    show ?thesis unfolding inv_mutex_def * inv using m front_empty(6) by auto
  next
    case (take i t ts)
    have m: "queue_mutex s = Some (Worker i)" using mutex_worker[OF assms(1)] take(2,3) by simp
    have *: "holds_mutex th s' = (th \<noteq> Worker i \<and> holds_mutex th s)" for th
      using take(2,5) by (cases th) (auto simp: nth_list_update)
    show ?thesis unfolding inv_mutex_def * inv using m take(5) by auto
  next
    case (run i t)
    have *: "holds_mutex th s' = holds_mutex th s" for th
      using run(2,3,5) by (cases th) (auto simp: nth_list_update)
    show ?thesis unfolding inv_mutex_def * inv using run(5) by auto
  next
    case (escape i t)
    have *: "holds_mutex th s' = holds_mutex th s" for th
      using escape(2,3,5) by (cases th) (auto simp: nth_list_update)
    show ?thesis unfolding inv_mutex_def * inv using escape(5) by auto
  next
    case (wakeup i)
    have *: "holds_mutex th s' = holds_mutex th s" for th
      using wakeup(2,3,4) by (cases th) (auto simp: nth_list_update)
    show ?thesis unfolding inv_mutex_def * inv using wakeup(4) by auto
  next
    case (make c f)
    have "\<not> holds_mutex (Caller c) s"
      using make(2) by (auto simp: in_call_def split: caller.splits)
    then have *: "holds_mutex th s' = holds_mutex th s" for th
      using make(4) by (cases th) auto
    show ?thesis unfolding inv_mutex_def * inv using make(4) by auto
  next
    case (s_lock c k t)
    have *: "holds_mutex th s' = (th = Caller c \<or> holds_mutex th s)" for th
      using s_lock(5) by (cases th) auto
    show ?thesis unfolding inv_mutex_def * inv using s_lock(4,5) by auto
  next
    case (throw c k t)
    have m: "queue_mutex s = Some (Caller c)" using mutex_caller[OF assms(1)] throw(3) by simp
    have *: "holds_mutex th s' = (th \<noteq> Caller c \<and> holds_mutex th s)" for th
      using throw(5) by (cases th) auto
    show ?thesis unfolding inv_mutex_def * inv using m throw(5) by auto
  next
    case (emplace c k t)
    have m: "queue_mutex s = Some (Caller c)" using mutex_caller[OF assms(1)] emplace(3) by simp
    have *: "holds_mutex th s' = (th \<noteq> Caller c \<and> holds_mutex th s)" for th
      using emplace(5) by (cases th) auto
    show ?thesis unfolding inv_mutex_def * inv using m emplace(5) by auto
  next
    case (notify c k h)
    have "\<not> holds_mutex (Caller c) s" using notify(3) by simp
    then have *: "holds_mutex th s' = holds_mutex th s" for th
      using notify(4) by (cases th) (auto simp: notify_one_eq)
    show ?thesis unfolding inv_mutex_def * inv using notify(4) by auto
  next
    case d_lock
    have *: "holds_mutex th s' = (th = Owner \<or> holds_mutex th s)" for th
      using d_lock(4) by (cases th) auto
    show ?thesis unfolding inv_mutex_def * inv using d_lock(3,4) by auto
  next
    case set_stop
    have m: "queue_mutex s = Some Owner" using mutex_owner[OF assms(1)] set_stop(2) by simp
    have *: "holds_mutex th s' = (th \<noteq> Owner \<and> holds_mutex th s)" for th
      using set_stop(3) by (cases th) auto
    show ?thesis unfolding inv_mutex_def * inv using m set_stop(3) by auto
  next
    case broadcast
    have *: "holds_mutex th s' = holds_mutex th s" for th
      using broadcast by (cases th) (auto simp: notify_all_eq)
    show ?thesis unfolding inv_mutex_def * inv using broadcast(3) by auto
  next
    case (join j)
    have *: "holds_mutex th s' = holds_mutex th s" for th
      using join by (cases th) auto
    show ?thesis unfolding inv_mutex_def * inv using join(5) by auto
  next
    case (members j)
    have *: "holds_mutex th s' = holds_mutex th s" for th
      using members by (cases th) auto
    show ?thesis unfolding inv_mutex_def * inv using members(4) by auto
  qed
qed

subsection \<open>The control invariants\<close>

lemma inv_predD:
  "inv_pred s \<Longrightarrow> j < length (workers s) \<Longrightarrow> workers s ! j = W_locked \<Longrightarrow> stop s \<or> tasks s \<noteq> []"
  unfolding inv_pred_def by blast

lemma inv_pred_step:
  assumes "inv_mutex s" "inv_stop s" "inv_pred s" "step a s = Some s'"
  shows "inv_pred s'"
  unfolding inv_pred_def
proof (intro allI impI)
  fix j
  assume j: "j < length (workers s')" "workers s' ! j = W_locked"
  note old = inv_predD[OF assms(3), of j]
  show "stop s' \<or> tasks s' \<noteq> []"
    using assms(4)
  proof (cases rule: step_cases)
    case (take i t ts)
    have "j \<noteq> i" using j take by auto
    moreover have "workers s ! j = W_locked" using j take \<open>j \<noteq> i\<close> by auto
    ultimately show ?thesis
      using mutex_worker[OF assms(1), of j] mutex_worker[OF assms(1), of i] take(2,3) j take(5)
      by simp
  next
    case (members k)
    then show ?thesis using assms(2) by (simp add: inv_stop_def)
  next
    case (notify c k h)
    then show ?thesis using j old by (simp add: notify_one_eq)
  next
    case broadcast
    then show ?thesis using j old by (simp add: notify_all_eq)
  qed (use j old in \<open>auto simp: nth_list_update split: if_splits\<close>)
qed


lemma inv_stop_step:
  assumes "inv_stop s" "step a s = Some s'"
  shows "inv_stop s'"
  using assms(2) by (cases rule: step_cases) (use assms(1) in \<open>auto simp: inv_stop_def\<close>)

lemma length_workers_step:
  assumes "step a s = Some s'"
  shows "length (workers s') = length (workers s)"
  using assms by (cases rule: step_cases) auto

lemma exited_stays:
  assumes "step a s = Some s'" "i < length (workers s)" "workers s ! i = W_exited"
  shows "workers s' ! i = W_exited"
  using assms(1)
  by (cases rule: step_cases)
    (use assms(2,3) in \<open>auto simp: nth_list_update notify_one_eq notify_all_eq\<close>)

lemma inv_exit_step:
  assumes "inv_exit s" "step a s = Some s'"
  shows "inv_exit s'"
  using assms(2)
  by (cases rule: step_cases)
    (use assms(1) in \<open>auto simp: inv_exit_def nth_list_update notify_one_eq notify_all_eq\<close>)

lemma inv_join_step:
  assumes "inv_join s" "step a s = Some s'"
  shows "inv_join s'"
proof -
  note len = length_workers_step[OF assms(2)]
  have joined: "workers s ! j = W_exited" if "owner s = D_join k" "j < k" "j < length (workers s)"
    for j k using assms(1) that unfolding inv_join_def by blast
  have gone: "workers s ! j = W_exited" if "owner s = D_destroyed" "j < length (workers s)"
    for j using assms(1) that unfolding inv_join_def by blast
  have 1: "workers s' ! j = W_exited" if "owner s' = D_join k" "j < k" "j < length (workers s')"
    for j k
  proof -
    have "workers s ! j = W_exited"
      using assms(2)
    proof (cases rule: step_cases)
      case (join i)
      then show ?thesis using that joined[of i j] by (cases "j = i") auto
    qed (use that joined[of k j] in auto)
    then show ?thesis using exited_stays[OF assms(2)] that(3) len by simp
  qed
  have 2: "workers s' ! j = W_exited" if "owner s' = D_destroyed" "j < length (workers s')" for j
  proof -
    have "workers s ! j = W_exited"
      using assms(2)
    proof (cases rule: step_cases)
      case (members i)
      then show ?thesis using that joined[of i j] by auto
    qed (use that gone[of j] in auto)
    then show ?thesis using exited_stays[OF assms(2)] that(2) len by simp
  qed
  show ?thesis unfolding inv_join_def using 1 2 by blast
qed


lemma inv_ctl_step:
  assumes "inv_ctl s" "step a s = Some s'"
  shows "inv_ctl s'"
  using assms inv_mutex_step[of s a s'] inv_stop_step[of s a s'] inv_join_step[of s a s']
    inv_pred_step[of s a s'] inv_exit_step[of s a s']
  unfolding inv_ctl_def by blast

lemma inv_ctl_init: "inv_ctl (ThreadPool n)"
proof -
  have "holds_mutex th (ThreadPool n) = (queue_mutex (ThreadPool n) = Some th)" for th
    by (cases th) (auto simp: ThreadPool_def)
  then have "inv_mutex (ThreadPool n)" unfolding inv_mutex_def by blast
  moreover have "inv_stop (ThreadPool n)" "inv_join (ThreadPool n)"
    "inv_pred (ThreadPool n)" "inv_exit (ThreadPool n)"
    by (auto simp: inv_stop_def inv_join_def inv_pred_def inv_exit_def ThreadPool_def)
  ultimately show ?thesis unfolding inv_ctl_def by blast
qed

subsection \<open>Schedules\<close>

lemma exec_append: "exec (as @ bs) s = Option.bind (exec as s) (exec bs)"
  by (induction as arbitrary: s) (auto split: option.splits)

lemma exec_invariant:
  assumes "P s" "\<And>a s s'. P s \<Longrightarrow> step a s = Some s' \<Longrightarrow> P s'" "exec as s = Some s'"
  shows "P s'"
  using assms(1,3)
proof (induction as arbitrary: s)
  case Nil
  then show ?case by simp
next
  case (Cons a as)
  then show ?case using assms(2) by (auto split: option.splits)
qed

lemma inv_ctl_reachable:
  assumes "exec as (ThreadPool n) = Some s"
  shows "inv_ctl s"
  by (rule exec_invariant[of inv_ctl, OF inv_ctl_init _ assms]) (rule inv_ctl_step)

lemma length_workers_reachable:
  "exec as (ThreadPool n) = Some s \<Longrightarrow> length (workers s) = n"
  using exec_invariant[of "\<lambda>s. length (workers s) = n" "ThreadPool n" as s]
  by (simp add: length_workers_step ThreadPool_def)

subsection \<open>The history\<close>

lemma enqueued_simps [simp]:
  "enqueued [] = []" "enqueued (tr @ tr') = enqueued tr @ enqueued tr'"
  "enqueued [e] = enq_of e" "enqueued (map Abandoned ts) = []"
  by (induction ts) (simp_all add: enqueued_def)

lemma dequeued_simps [simp]:
  "dequeued [] = []" "dequeued (tr @ tr') = dequeued tr @ dequeued tr'"
  "dequeued [e] = deq_of e" "dequeued (map Abandoned ts) = []"
  by (induction ts) (simp_all add: dequeued_def)

lemma executed_simps [simp]:
  "executed [] = []" "executed (tr @ tr') = executed tr @ executed tr'"
  "executed [e] = exe_of e" "executed (map Abandoned ts) = []"
  by (induction ts) (simp_all add: executed_def)

lemma abandoned_simps [simp]:
  "abandoned [] = []" "abandoned (tr @ tr') = abandoned tr @ abandoned tr'"
  "abandoned [e] = abn_of e" "abandoned (map Abandoned ts) = ts"
  by (induction ts) (simp_all add: abandoned_def)

subsection \<open>The queue and its history\<close>

lemma inv_queueD:
  assumes "inv_queue s"
  shows "enqueued (trace s) = dequeued (trace s) @ tasks s @ abandoned (trace s)"
    and "distinct (map state_id (enqueued (trace s)))"
    and "t \<in> set (enqueued (trace s)) \<Longrightarrow> state_id t < next_state s"
    and "owner s \<noteq> D_destroyed \<Longrightarrow> abandoned (trace s) = []"
  using assms unfolding inv_queue_def by blast+

lemma inv_heldD:
  assumes "inv_held s" "held (callers s c) = Some t"
  shows "state_id t < next_state s"
    and "state_id t \<notin> state_id ` set (enqueued (trace s))"
    and "held (callers s c') = Some t' \<Longrightarrow> state_id t' = state_id t \<Longrightarrow> c' = c"
  using assms unfolding inv_held_def by blast+

lemma inv_queue_step:
  assumes "inv_queue s" "inv_held s" "step a s = Some s'"
  shows "inv_queue s'"
proof -
  note q = inv_queueD[OF assms(1)]
  show ?thesis using assms(3)
  proof (cases rule: step_cases)
    case (emplace c k t)
    have h: "held (callers s c) = Some t" using emplace(3) by simp
    note new = inv_heldD(1,2)[OF assms(2) h]
    have 1: "enqueued (trace s') = dequeued (trace s') @ tasks s' @ abandoned (trace s')"
      using emplace q(1,4) by simp
    have 2: "distinct (map state_id (enqueued (trace s')))"
      using emplace(5) q(2) new(2) by simp
    have 3: "\<forall>u\<in>set (enqueued (trace s')). state_id u < next_state s'"
      using emplace(5) q(3) new(1) by auto
    have 4: "owner s' \<noteq> D_destroyed \<longrightarrow> abandoned (trace s') = []"
      using emplace q(4) by simp
    show ?thesis unfolding inv_queue_def using 1 2 3 4 by blast
  next
    case (make c f)
    have 3: "\<forall>u\<in>set (enqueued (trace s')). state_id u < next_state s'"
      using make(4) q(3) by (auto simp: less_Suc_eq)
    show ?thesis unfolding inv_queue_def using make(4) q(1,2,4) 3 by simp
  next
    case (take i t ts)
    have 1: "enqueued (trace s') = dequeued (trace s') @ tasks s' @ abandoned (trace s')"
      using take q(1) by simp
    have 3: "\<forall>u\<in>set (enqueued (trace s')). state_id u < next_state s'"
      using take(5) q(3) by auto
    show ?thesis unfolding inv_queue_def using take(5) 1 q(2,4) 3 by simp
  next
    case (members j)
    have 1: "enqueued (trace s') = dequeued (trace s') @ tasks s' @ abandoned (trace s')"
      using members q(1,4) by simp
    have 3: "\<forall>u\<in>set (enqueued (trace s')). state_id u < next_state s'"
      using members(4) q(3) by auto
    show ?thesis unfolding inv_queue_def using members(4) 1 q(2) 3 by simp
  qed (use q in \<open>simp_all add: inv_queue_def\<close>)
qed


lemma inv_heldI:
  assumes "\<And>c t. held (callers s c) = Some t \<Longrightarrow> state_id t < next_state s"
    and "\<And>c t. held (callers s c) = Some t \<Longrightarrow> state_id t \<notin> state_id ` set (enqueued (trace s))"
    and "\<And>c t c' t'. held (callers s c) = Some t \<Longrightarrow> held (callers s c') = Some t'
          \<Longrightarrow> state_id t' = state_id t \<Longrightarrow> c' = c"
  shows "inv_held s"
  unfolding inv_held_def using assms by blast

lemma inv_held_frame:
  assumes "inv_held s" "\<And>x. held (callers s' x) = held (callers s x)"
    "next_state s' = next_state s" "enqueued (trace s') = enqueued (trace s)"
  shows "inv_held s'"
  using assms(1) unfolding inv_held_def assms(2,3,4) .

lemma inv_held_step:
  assumes "inv_queue s" "inv_held s" "step a s = Some s'"
  shows "inv_held s'"
proof -
  note q = inv_queueD[OF assms(1)]
  note h = inv_heldD[OF assms(2)]
  show ?thesis using assms(3)
  proof (cases rule: step_cases)
    case (make c f)
    have fr: "held (callers s' x) = (if x = c then Some (Packaged_task f (next_state s))
                else held (callers s x))" for x
      using make(4) by simp
    have new: "state_id t = next_state s" if "held (callers s' c) = Some t" for t
      using that fr[of c] by auto
    have old: "held (callers s x) = Some t" if "held (callers s' x) = Some t" "x \<noteq> c" for x t
      using that fr[of x] by simp
    show ?thesis
    proof (rule inv_heldI)
      fix x t assume *: "held (callers s' x) = Some t"
      show "state_id t < next_state s'"
      proof (cases "x = c")
        case True
        with * have "held (callers s' c) = Some t" by simp
        from new[OF this] show ?thesis using make(4) by simp
      next
        case False
        then show ?thesis using h(1)[OF old[OF * False]] make(4) by simp
      qed
    next
      fix x t assume *: "held (callers s' x) = Some t"
      show "state_id t \<notin> state_id ` set (enqueued (trace s'))"
      proof
        assume "state_id t \<in> state_id ` set (enqueued (trace s'))"
        then obtain u where u: "u \<in> set (enqueued (trace s))" "state_id u = state_id t"
          using make(4) by auto
        have lt: "state_id u < next_state s" by (rule q(3)[OF u(1)])
        show False
        proof (cases "x = c")
          case True
          with * have "held (callers s' c) = Some t" by simp
          from new[OF this] show ?thesis using lt u(2) by simp
        next
          case False
          from h(2)[OF old[OF * False]] u show ?thesis by (metis imageI)
        qed
      qed
    next
      fix x t x' t'
      assume *: "held (callers s' x) = Some t" "held (callers s' x') = Some t'"
        and eq: "state_id t' = state_id t"
      show "x' = x"
      proof (cases "x = c")
        case True
        show ?thesis
        proof (rule ccontr)
          assume ne: "x' \<noteq> x"
          then have "state_id t' < next_state s" using h(1)[OF old[OF *(2)]] True by simp
          moreover have "held (callers s' c) = Some t" using *(1) True by simp
          ultimately show False using new[of t] eq by simp
        qed
      next
        case False
        show ?thesis
        proof (cases "x' = c")
          case True
          have "state_id t < next_state s" using h(1)[OF old[OF *(1) False]] .
          moreover have "held (callers s' c) = Some t'" using *(2) True by simp
          ultimately show ?thesis using new[of t'] eq by simp
        next
          case ne: False
          show ?thesis by (rule h(3)[OF old[OF *(1) False] old[OF *(2) ne] eq])
        qed
      qed
    qed
  next
    case (s_lock c k t)
    have fr: "held (callers s' x) = held (callers s x)" for x
      using s_lock(3,5) by simp
    show ?thesis by (rule inv_held_frame[OF assms(2) fr]) (simp_all add: s_lock(5))
  next
    case (throw c k t)
    have fr: "held (callers s' x) = (if x = c then None else held (callers s x))" for x
      using throw(5) by simp
    have old: "held (callers s x) = Some u \<and> x \<noteq> c" if "held (callers s' x) = Some u" for x u
      using that fr[of x] by (cases "x = c") simp_all
    show ?thesis
    proof (rule inv_heldI)
      fix x u assume *: "held (callers s' x) = Some u"
      show "state_id u < next_state s'"
        using h(1)[of x u] old[OF *] throw(5) by simp
    next
      fix x u assume *: "held (callers s' x) = Some u"
      show "state_id u \<notin> state_id ` set (enqueued (trace s'))"
        using h(2)[of x u] old[OF *] throw(5) by simp
    next
      fix x u x' u'
      assume *: "held (callers s' x) = Some u" "held (callers s' x') = Some u'"
        and eq: "state_id u' = state_id u"
      show "x' = x"
        using old[OF *(1)] old[OF *(2)] by (intro h(3)[OF _ _ eq]) simp_all
    qed
  next
    case (emplace c k t)
    have c: "held (callers s c) = Some t" using emplace(3) by simp
    have fr: "held (callers s' x) = (if x = c then None else held (callers s x))" for x
      using emplace(5) by simp
    have old: "held (callers s x) = Some u \<and> x \<noteq> c" if "held (callers s' x) = Some u" for x u
      using that fr[of x] by (cases "x = c") simp_all
    show ?thesis
    proof (rule inv_heldI)
      fix x u assume *: "held (callers s' x) = Some u"
      show "state_id u < next_state s'"
        using h(1)[of x u] old[OF *] emplace(5) by simp
    next
      fix x u assume *: "held (callers s' x) = Some u"
      have o: "held (callers s x) = Some u" "x \<noteq> c" using old[OF *] by simp_all
      have "state_id u \<noteq> state_id t"
      proof
        assume "state_id u = state_id t"
        from h(3)[OF c o(1) this] o(2) show False by simp
      qed
      then show "state_id u \<notin> state_id ` set (enqueued (trace s'))"
        using h(2)[OF o(1)] emplace(5) by simp
    next
      fix x u x' u'
      assume *: "held (callers s' x) = Some u" "held (callers s' x') = Some u'"
        and eq: "state_id u' = state_id u"
      show "x' = x"
        using old[OF *(1)] old[OF *(2)] by (intro h(3)[OF _ _ eq]) simp_all
    qed
  next
    case (notify c k n)
    have fr: "held (callers s' x) = held (callers s x)" for x
      using notify(3,4) by simp
    show ?thesis by (rule inv_held_frame[OF assms(2) fr]) (simp_all add: notify(4))
  qed (rule inv_held_frame[OF assms(2)]; simp)+
qed

subsection \<open>Taken, invoked, in flight\<close>

lemma inv_execD:
  assumes "inv_exec s"
  shows "set (executed (trace s)) \<subseteq> set (dequeued (trace s))"
    and "distinct (executed (trace s))"
    and "t \<in> set (dequeued (trace s)) \<Longrightarrow>
          t \<in> set (executed (trace s)) \<or> (\<exists>i<length (workers s). workers s ! i = W_run t)"
    and "i < length (workers s) \<Longrightarrow> workers s ! i = W_run t \<Longrightarrow> t \<in> set (dequeued (trace s))"
    and "i < length (workers s) \<Longrightarrow> workers s ! i = W_run t \<Longrightarrow> t \<notin> set (executed (trace s))"
    and "i < length (workers s) \<Longrightarrow> workers s ! i = W_run t \<Longrightarrow> j < length (workers s)
          \<Longrightarrow> workers s ! j = W_run t \<Longrightarrow> j = i"
  using assms unfolding inv_exec_def by blast+

lemma inv_execI:
  assumes "set (executed (trace s)) \<subseteq> set (dequeued (trace s))"
    and "distinct (executed (trace s))"
    and "\<And>t. t \<in> set (dequeued (trace s)) \<Longrightarrow>
          t \<in> set (executed (trace s)) \<or> (\<exists>i<length (workers s). workers s ! i = W_run t)"
    and "\<And>i t. i < length (workers s) \<Longrightarrow> workers s ! i = W_run t
          \<Longrightarrow> t \<in> set (dequeued (trace s))"
    and "\<And>i t. i < length (workers s) \<Longrightarrow> workers s ! i = W_run t
          \<Longrightarrow> t \<notin> set (executed (trace s))"
    and "\<And>i j t. i < length (workers s) \<Longrightarrow> workers s ! i = W_run t
          \<Longrightarrow> j < length (workers s) \<Longrightarrow> workers s ! j = W_run t \<Longrightarrow> j = i"
  shows "inv_exec s"
  unfolding inv_exec_def using assms by blast

lemma inv_exec_frame:
  assumes "inv_exec s" "length (workers s') = length (workers s)"
    "\<And>j t. j < length (workers s) \<Longrightarrow> (workers s' ! j = W_run t) = (workers s ! j = W_run t)"
    "dequeued (trace s') = dequeued (trace s)" "executed (trace s') = executed (trace s)"
  shows "inv_exec s'"
proof -
  note e = inv_execD[OF assms(1)]
  show ?thesis
  proof (rule inv_execI)
    show "set (executed (trace s')) \<subseteq> set (dequeued (trace s'))"
      using e(1) assms(4,5) by simp
    show "distinct (executed (trace s'))" using e(2) assms(5) by simp
  next
    fix t assume "t \<in> set (dequeued (trace s'))"
    then have "t \<in> set (dequeued (trace s))" using assms(4) by simp
    from e(3)[OF this] show "t \<in> set (executed (trace s'))
        \<or> (\<exists>i<length (workers s'). workers s' ! i = W_run t)"
      using assms(2,3,5) by auto
  next
    fix i t assume "i < length (workers s')" "workers s' ! i = W_run t"
    then have *: "i < length (workers s)" "workers s ! i = W_run t" using assms(2,3) by auto
    show "t \<in> set (dequeued (trace s'))" using e(4)[OF *] assms(4) by simp
    show "t \<notin> set (executed (trace s'))" using e(5)[OF *] assms(5) by simp
    fix j assume "j < length (workers s')" "workers s' ! j = W_run t"
    then have "j < length (workers s)" "workers s ! j = W_run t" using assms(2,3) by auto
    then show "j = i" using e(6)[OF *] by simp
  qed
qed

lemma inv_futuresD:
  assumes "inv_futures s"
  shows "t \<in> set (tasks s) \<Longrightarrow> futures s (state_id t) = Some Pending"
    and "i < length (workers s) \<Longrightarrow> workers s ! i = W_run t \<Longrightarrow> futures s (state_id t) = Some Pending"
    and "held (callers s c) = Some t \<Longrightarrow> futures s (state_id t) = Some Pending"
    and "t \<in> set (executed (trace s)) \<Longrightarrow>
          futures s (state_id t) = Some (Ready (invoke (callable t)))"
    and "t \<in> set (abandoned (trace s)) \<Longrightarrow>
          futures s (state_id t) = Some (Ready (Inl Broken_promise))"
  using assms unfolding inv_futures_def by blast+

lemma inv_exec_step:
  assumes "inv_queue s" "inv_exec s" "inv_futures s" "step a s = Some s'"
  shows "inv_exec s'"
proof -
  note q = inv_queueD[OF assms(1)]
  note e = inv_execD[OF assms(2)]
  note f = inv_futuresD[OF assms(3)]
  note len = length_workers_step[OF assms(4)]
  show ?thesis using assms(4)
  proof (cases rule: step_cases)
    case (take i t ts)
    have fresh: "t \<notin> set (dequeued (trace s))"
      using q(1,2) take(4) by auto
    have ws: "workers s' ! j = (if j = i then W_run t else workers s ! j)"
      if "j < length (workers s)" for j using take(5) that by (simp add: nth_list_update)
    have tr: "dequeued (trace s') = dequeued (trace s) @ [t]"
      "executed (trace s') = executed (trace s)" using take(5) by simp_all
    show ?thesis
    proof (rule inv_execI)
      show "set (executed (trace s')) \<subseteq> set (dequeued (trace s'))"
        using e(1) tr by auto
      show "distinct (executed (trace s'))" using e(2) tr by simp
    next
      fix u assume "u \<in> set (dequeued (trace s'))"
      then consider "u = t" | "u \<in> set (dequeued (trace s))" using tr by auto
      then show "u \<in> set (executed (trace s'))
          \<or> (\<exists>j<length (workers s'). workers s' ! j = W_run u)"
      proof cases
        case 1
        then show ?thesis using ws[of i] take(2) len by auto
      next
        case 2
        from e(3)[OF 2] show ?thesis
        proof
          assume "u \<in> set (executed (trace s))"
          then show ?thesis using tr by simp
        next
          assume "\<exists>j<length (workers s). workers s ! j = W_run u"
          then obtain j where j: "j < length (workers s)" "workers s ! j = W_run u" by blast
          then have "j \<noteq> i" using take(3) by auto
          then have "workers s' ! j = W_run u" using ws[OF j(1)] j(2) by simp
          then show ?thesis using j(1) len by auto
        qed
      qed
    next
      fix j u assume j: "j < length (workers s')" "workers s' ! j = W_run u"
      have old: "j \<noteq> i \<Longrightarrow> workers s ! j = W_run u" using ws[of j] j len by simp
      have new: "j = i \<Longrightarrow> u = t" using ws[of j] j len by simp
      show "u \<in> set (dequeued (trace s'))"
        using new old e(4)[of j u] j(1) len tr by (cases "j = i") simp_all
      show "u \<notin> set (executed (trace s'))"
      proof (cases "j = i")
        case True
        then show ?thesis using new fresh e(1) tr by auto
      next
        case False
        then show ?thesis using old e(5)[of j u] j(1) len tr by simp
      qed
      fix k assume k: "k < length (workers s')" "workers s' ! k = W_run u"
      have oldk: "k \<noteq> i \<Longrightarrow> workers s ! k = W_run u" using ws[of k] k len by simp
      have newk: "k = i \<Longrightarrow> u = t" using ws[of k] k len by simp
      show "k = j"
      proof (cases "j = i")
        case True
        show ?thesis
        proof (rule ccontr)
          assume "k \<noteq> j"
          then have "workers s ! k = W_run t" using oldk True new by simp
          then show False using e(4)[of k t] k(1) len fresh by simp
        qed
      next
        case False
        have "u \<in> set (dequeued (trace s))" using e(4)[of j u] old[OF False] j(1) len by simp
        then have "u \<noteq> t" using fresh by auto
        then have "k \<noteq> i" using newk by auto
        then show ?thesis using e(6)[of j u k] old[OF False] oldk j(1) k(1) len by simp
      qed
    qed
  next
    case (run i t)
    have ws: "workers s' ! j = (if j = i then W_lock else workers s ! j)"
      if "j < length (workers s)" for j using run(5) that by (simp add: nth_list_update)
    have tr: "dequeued (trace s') = dequeued (trace s)"
      "executed (trace s') = executed (trace s) @ [t]" using run(5) by simp_all
    note ti = e(4,5)[OF run(2,3)]
    show ?thesis
    proof (rule inv_execI)
      show "set (executed (trace s')) \<subseteq> set (dequeued (trace s'))"
        using e(1) tr ti by auto
      show "distinct (executed (trace s'))" using e(2) tr ti by simp
    next
      fix u assume "u \<in> set (dequeued (trace s'))"
      then have u: "u \<in> set (dequeued (trace s))" using tr by simp
      from e(3)[OF u] show "u \<in> set (executed (trace s'))
          \<or> (\<exists>j<length (workers s'). workers s' ! j = W_run u)"
      proof
        assume "u \<in> set (executed (trace s))"
        then show ?thesis using tr by simp
      next
        assume "\<exists>j<length (workers s). workers s ! j = W_run u"
        then obtain j where j: "j < length (workers s)" "workers s ! j = W_run u" by blast
        show ?thesis
        proof (cases "j = i")
          case True
          then have "u = t" using j(2) run(3) by simp
          then show ?thesis using tr by simp
        next
          case False
          then have "workers s' ! j = W_run u" using ws[OF j(1)] j(2) by simp
          then show ?thesis using j(1) len by auto
        qed
      qed
    next
      fix j u assume j: "j < length (workers s')" "workers s' ! j = W_run u"
      have ne: "j \<noteq> i" using ws[of j] j len by auto
      then have old: "workers s ! j = W_run u" using ws[of j] j len by simp
      have jl: "j < length (workers s)" using j(1) len by simp
      show "u \<in> set (dequeued (trace s'))" using e(4)[OF jl old] tr by simp
      have "u \<noteq> t" using e(6)[OF jl old run(2)] run(3) ne by auto
      then show "u \<notin> set (executed (trace s'))" using e(5)[OF jl old] tr by simp
      fix k assume k: "k < length (workers s')" "workers s' ! k = W_run u"
      have "k \<noteq> i" using ws[of k] k len by auto
      then have "workers s ! k = W_run u" using ws[of k] k len by simp
      then show "k = j" using e(6)[OF jl old, of k] k(1) len by simp
    qed
  next
    case (escape i t)
    then show ?thesis using f(2)[of i t] by simp
  qed (rule inv_exec_frame[OF assms(2)];
        auto simp add: nth_list_update notify_one_eq notify_all_eq)+
qed

subsection \<open>Shared states\<close>

lemma same_id:
  assumes "inv_queue s" "u \<in> set (enqueued (trace s))" "v \<in> set (enqueued (trace s))"
    "state_id u = state_id v"
  shows "u = v"
  using inv_queueD(2)[OF assms(1)] assms(2,3,4) by (auto simp: distinct_map dest: inj_onD)

lemma parts_of_enqueued:
  assumes "inv_queue s"
  shows "set (dequeued (trace s)) \<subseteq> set (enqueued (trace s))"
    and "set (tasks s) \<subseteq> set (enqueued (trace s))"
    and "set (abandoned (trace s)) \<subseteq> set (enqueued (trace s))"
    and "set (dequeued (trace s)) \<inter> set (tasks s) = {}"
    and "set (dequeued (trace s)) \<inter> set (abandoned (trace s)) = {}"
    and "set (tasks s) \<inter> set (abandoned (trace s)) = {}"
proof -
  let ?xs = "dequeued (trace s) @ tasks s @ abandoned (trace s)"
  have eq: "enqueued (trace s) = ?xs" by (rule inv_queueD(1)[OF assms])
  have "distinct (map state_id ?xs)" using inv_queueD(2)[OF assms] unfolding eq .
  then have d: "distinct ?xs" by (simp only: distinct_map)
  show "set (dequeued (trace s)) \<subseteq> set (enqueued (trace s))"
    "set (tasks s) \<subseteq> set (enqueued (trace s))"
    "set (abandoned (trace s)) \<subseteq> set (enqueued (trace s))"
    unfolding eq by auto
  show "set (dequeued (trace s)) \<inter> set (tasks s) = {}"
    "set (dequeued (trace s)) \<inter> set (abandoned (trace s)) = {}"
    "set (tasks s) \<inter> set (abandoned (trace s)) = {}"
    using d by auto
qed

lemma other_id:
  assumes "inv_queue s" "u \<in> set (enqueued (trace s))" "v \<in> set (enqueued (trace s))" "u \<noteq> v"
  shows "state_id u \<noteq> state_id v"
  using same_id[OF assms(1,2,3)] assms(4) by blast

lemma abandon_idem [simp]: "abandon (abandon st) = abandon st"
  by (simp add: abandon_def split: option.splits shared_state.splits)

lemma destroy_tasks_apply:
  "destroy_tasks ts fs h = (if h \<in> state_id ` set ts then abandon (fs h) else fs h)"
  by (induction ts arbitrary: fs) auto

lemma inv_futuresI:
  assumes "\<And>t. t \<in> set (tasks s) \<Longrightarrow> futures s (state_id t) = Some Pending"
    and "\<And>i t. i < length (workers s) \<Longrightarrow> workers s ! i = W_run t
          \<Longrightarrow> futures s (state_id t) = Some Pending"
    and "\<And>c t. held (callers s c) = Some t \<Longrightarrow> futures s (state_id t) = Some Pending"
    and "\<And>t. t \<in> set (executed (trace s)) \<Longrightarrow>
          futures s (state_id t) = Some (Ready (invoke (callable t)))"
    and "\<And>t. t \<in> set (abandoned (trace s)) \<Longrightarrow>
          futures s (state_id t) = Some (Ready (Inl Broken_promise))"
  shows "inv_futures s"
  unfolding inv_futures_def using assms by blast

lemma inv_futures_frame:
  assumes "inv_futures s" "futures s' = futures s" "set (tasks s') \<subseteq> set (tasks s)"
    "length (workers s') = length (workers s)"
    "\<And>j t. j < length (workers s) \<Longrightarrow> workers s' ! j = W_run t \<Longrightarrow> workers s ! j = W_run t"
    "\<And>x t. held (callers s' x) = Some t \<Longrightarrow> held (callers s x) = Some t"
    "executed (trace s') = executed (trace s)" "abandoned (trace s') = abandoned (trace s)"
  shows "inv_futures s'"
proof -
  note f = inv_futuresD[OF assms(1)]
  show ?thesis
  proof (rule inv_futuresI)
    fix t assume "t \<in> set (tasks s')"
    then show "futures s' (state_id t) = Some Pending" using f(1)[of t] assms(2,3) by auto
  next
    fix i t assume "i < length (workers s')" "workers s' ! i = W_run t"
    then show "futures s' (state_id t) = Some Pending"
      using f(2)[of i t] assms(5)[of i t] assms(2,4) by simp
  next
    fix c t assume "held (callers s' c) = Some t"
    then show "futures s' (state_id t) = Some Pending"
      using f(3)[of c t] assms(6)[of c t] assms(2) by simp
  next
    fix t assume "t \<in> set (executed (trace s'))"
    then show "futures s' (state_id t) = Some (Ready (invoke (callable t)))"
      using f(4)[of t] assms(2,7) by simp
  next
    fix t assume "t \<in> set (abandoned (trace s'))"
    then show "futures s' (state_id t) = Some (Ready (Inl Broken_promise))"
      using f(5)[of t] assms(2,8) by simp
  qed
qed


lemma inv_futures_step:
  assumes "inv_queue s" "inv_held s" "inv_exec s" "inv_futures s" "step a s = Some s'"
  shows "inv_futures s'"
proof -
  note q = inv_queueD[OF assms(1)]
  note p = parts_of_enqueued[OF assms(1)]
  note h = inv_heldD[OF assms(2)]
  note e = inv_execD[OF assms(3)]
  note f = inv_futuresD[OF assms(4)]
  note len = length_workers_step[OF assms(5)]
  have run_enq: "t \<in> set (dequeued (trace s))"
    if "i < length (workers s)" "workers s ! i = W_run t" for i t
    using e(4)[OF that] .
  show ?thesis using assms(5)
  proof (cases rule: step_cases)
    case (make c f0)
    have fr: "held (callers s' x) = (if x = c then Some (Packaged_task f0 (next_state s))
                else held (callers s x))" for x
      using make(4) by simp
    have keep: "futures s' n = futures s n" if "n < next_state s" for n
      using make(4) that by simp
    have enq: "futures s' (state_id t) = futures s (state_id t)"
      if "t \<in> set (enqueued (trace s))" for t
      using keep[OF q(3)[OF that]] .
    show ?thesis
    proof (rule inv_futuresI)
      fix t assume "t \<in> set (tasks s')"
      then have "t \<in> set (tasks s)" using make(4) by simp
      then show "futures s' (state_id t) = Some Pending" using enq[of t] f(1)[of t] p(2) by auto
    next
      fix i t assume "i < length (workers s')" "workers s' ! i = W_run t"
      then have *: "i < length (workers s)" "workers s ! i = W_run t" using make(4) by simp_all
      show "futures s' (state_id t) = Some Pending"
        using enq[of t] f(2)[OF *] run_enq[OF *] p(1) by auto
    next
      fix x t assume *: "held (callers s' x) = Some t"
      show "futures s' (state_id t) = Some Pending"
      proof (cases "x = c")
        case True
        then have "t = Packaged_task f0 (next_state s)" using * fr[of x] by simp
        then show ?thesis using make(4) by simp
      next
        case False
        then have o: "held (callers s x) = Some t" using * fr[of x] by simp
        show ?thesis using keep[OF h(1)[OF o]] f(3)[OF o] by simp
      qed
    next
      fix t assume "t \<in> set (executed (trace s'))"
      then have *: "t \<in> set (executed (trace s))" using make(4) by simp
      show "futures s' (state_id t) = Some (Ready (invoke (callable t)))"
        using enq[of t] f(4)[OF *] * e(1) p(1) by auto
    next
      fix t assume "t \<in> set (abandoned (trace s'))"
      then have *: "t \<in> set (abandoned (trace s))" using make(4) by simp
      show "futures s' (state_id t) = Some (Ready (Inl Broken_promise))"
        using enq[of t] f(5)[OF *] * p(3) by auto
    qed
  next
    case (throw c k t0)
    have c: "held (callers s c) = Some t0" using throw(3) by simp
    have fr: "held (callers s' x) = (if x = c then None else held (callers s x))" for x
      using throw(5) by simp
    have keep: "futures s' n = futures s n" if "n \<noteq> state_id t0" for n
      using throw(5) that by simp
    have enq: "futures s' (state_id t) = futures s (state_id t)"
      if "t \<in> set (enqueued (trace s))" for t
    proof (rule keep)
      show "state_id t \<noteq> state_id t0" using h(2)[OF c] that by (metis imageI)
    qed
    show ?thesis
    proof (rule inv_futuresI)
      fix t assume "t \<in> set (tasks s')"
      then have "t \<in> set (tasks s)" using throw(5) by simp
      then show "futures s' (state_id t) = Some Pending" using enq[of t] f(1)[of t] p(2) by auto
    next
      fix i t assume "i < length (workers s')" "workers s' ! i = W_run t"
      then have *: "i < length (workers s)" "workers s ! i = W_run t" using throw(5) by simp_all
      show "futures s' (state_id t) = Some Pending"
        using enq[of t] f(2)[OF *] run_enq[OF *] p(1) by auto
    next
      fix x t assume *: "held (callers s' x) = Some t"
      then have o: "x \<noteq> c" "held (callers s x) = Some t"
        using fr[of x] by (cases "x = c"; simp)+
      have "state_id t \<noteq> state_id t0" using h(3)[OF c o(2)] o(1) by auto
      then show "futures s' (state_id t) = Some Pending" using keep f(3)[OF o(2)] by simp
    next
      fix t assume "t \<in> set (executed (trace s'))"
      then have *: "t \<in> set (executed (trace s))" using throw(5) by simp
      show "futures s' (state_id t) = Some (Ready (invoke (callable t)))"
        using enq[of t] f(4)[OF *] * e(1) p(1) by auto
    next
      fix t assume "t \<in> set (abandoned (trace s'))"
      then have *: "t \<in> set (abandoned (trace s))" using throw(5) by simp
      show "futures s' (state_id t) = Some (Ready (Inl Broken_promise))"
        using enq[of t] f(5)[OF *] * p(3) by auto
    qed
  next
    case (emplace c k t0)
    have c: "held (callers s c) = Some t0" using emplace(3) by simp
    have fr: "held (callers s' x) = (if x = c then None else held (callers s x))" for x
      using emplace(5) by simp
    show ?thesis
    proof (rule inv_futuresI)
      fix t assume "t \<in> set (tasks s')"
      then have "t \<in> set (tasks s) \<or> t = t0" using emplace(5) by auto
      then show "futures s' (state_id t) = Some Pending"
        using f(1)[of t] f(3)[OF c] emplace(5) by auto
    next
      fix i t assume "i < length (workers s')" "workers s' ! i = W_run t"
      then have *: "i < length (workers s)" "workers s ! i = W_run t" using emplace(5) by simp_all
      show "futures s' (state_id t) = Some Pending" using f(2)[OF *] emplace(5) by simp
    next
      fix x t assume *: "held (callers s' x) = Some t"
      then have o: "held (callers s x) = Some t" using fr[of x] by (cases "x = c"; simp)
      show "futures s' (state_id t) = Some Pending" using f(3)[OF o] emplace(5) by simp
    next
      fix t assume "t \<in> set (executed (trace s'))"
      then have *: "t \<in> set (executed (trace s))" using emplace(5) by simp
      show "futures s' (state_id t) = Some (Ready (invoke (callable t)))"
        using f(4)[OF *] emplace(5) by simp
    next
      fix t assume "t \<in> set (abandoned (trace s'))"
      then have *: "t \<in> set (abandoned (trace s))" using emplace(5) by simp
      show "futures s' (state_id t) = Some (Ready (Inl Broken_promise))"
        using f(5)[OF *] emplace(5) by simp
    qed
  next
    case (take i t0 ts)
    have ws: "workers s' ! j = (if j = i then W_run t0 else workers s ! j)"
      if "j < length (workers s)" for j using take(5) that by (simp add: nth_list_update)
    show ?thesis
    proof (rule inv_futuresI)
      fix t assume "t \<in> set (tasks s')"
      then have "t \<in> set (tasks s)" using take(4,5) by simp
      then show "futures s' (state_id t) = Some Pending" using f(1)[of t] take(5) by simp
    next
      fix j t assume j: "j < length (workers s')" "workers s' ! j = W_run t"
      show "futures s' (state_id t) = Some Pending"
      proof (cases "j = i")
        case True
        then have "t = t0" using ws[of j] j len by simp
        then show ?thesis using f(1)[of t0] take(4,5) by simp
      next
        case False
        then have "workers s ! j = W_run t" using ws[of j] j len by simp
        then show ?thesis using f(2)[of j t] j(1) len take(5) by simp
      qed
    next
      fix x t assume "held (callers s' x) = Some t"
      then have o: "held (callers s x) = Some t" using take(5) by simp
      show "futures s' (state_id t) = Some Pending" using f(3)[OF o] take(5) by simp
    next
      fix t assume "t \<in> set (executed (trace s'))"
      then have *: "t \<in> set (executed (trace s))" using take(5) by simp
      show "futures s' (state_id t) = Some (Ready (invoke (callable t)))"
        using f(4)[OF *] take(5) by simp
    next
      fix t assume "t \<in> set (abandoned (trace s'))"
      then have *: "t \<in> set (abandoned (trace s))" using take(5) by simp
      show "futures s' (state_id t) = Some (Ready (Inl Broken_promise))"
        using f(5)[OF *] take(5) by simp
    qed
  next
    case (run i t0)
    have ws: "workers s' ! j = (if j = i then W_lock else workers s ! j)"
      if "j < length (workers s)" for j using run(5) that by (simp add: nth_list_update)
    have t0: "t0 \<in> set (dequeued (trace s))" "t0 \<notin> set (executed (trace s))"
      "t0 \<in> set (enqueued (trace s))"
      using e(4,5)[OF run(2,3)] p(1) by auto
    have keep: "futures s' n = futures s n" if "n \<noteq> state_id t0" for n
      using run(5) that by simp
    have enq: "futures s' (state_id t) = futures s (state_id t)"
      if "t \<in> set (enqueued (trace s))" "t \<noteq> t0" for t
      using keep other_id[OF assms(1) that(1) t0(3) that(2)] by simp
    show ?thesis
    proof (rule inv_futuresI)
      fix t assume "t \<in> set (tasks s')"
      then have *: "t \<in> set (tasks s)" using run(5) by simp
      then have "t \<noteq> t0" using t0(1) p(4) by auto
      then show "futures s' (state_id t) = Some Pending" using enq[of t] f(1)[OF *] * p(2) by auto
    next
      fix j t assume j: "j < length (workers s')" "workers s' ! j = W_run t"
      have ne: "j \<noteq> i" using ws[of j] j len by auto
      then have o: "j < length (workers s)" "workers s ! j = W_run t"
        using ws[of j] j len by simp_all
      have "t \<noteq> t0" using e(6)[OF o run(2)] run(3) ne by auto
      then show "futures s' (state_id t) = Some Pending"
        using enq[of t] f(2)[OF o] run_enq[OF o] p(1) by auto
    next
      fix x t assume "held (callers s' x) = Some t"
      then have o: "held (callers s x) = Some t" using run(5) by simp
      have "state_id t \<noteq> state_id t0" using h(2)[OF o] t0(3) by (metis imageI)
      then show "futures s' (state_id t) = Some Pending" using keep f(3)[OF o] by simp
    next
      fix t assume "t \<in> set (executed (trace s'))"
      then consider "t = t0" | "t \<in> set (executed (trace s))" "t \<noteq> t0"
        using run(5) by auto
      then show "futures s' (state_id t) = Some (Ready (invoke (callable t)))"
      proof cases
        case 1
        then show ?thesis using run(5) by simp
      next
        case 2
        then show ?thesis using enq[of t] f(4)[of t] e(1) p(1) by auto
      qed
    next
      fix t assume "t \<in> set (abandoned (trace s'))"
      then have *: "t \<in> set (abandoned (trace s))" using run(5) by simp
      then have "t \<noteq> t0" using t0(1) p(5) by auto
      then show "futures s' (state_id t) = Some (Ready (Inl Broken_promise))"
        using enq[of t] f(5)[OF *] * p(3) by auto
    qed
  next
    case (members j)
    have ab: "abandoned (trace s) = []" using q(4) members(2) by simp
    have fs: "futures s' n = (if n \<in> state_id ` set (tasks s) then abandon (futures s n)
                else futures s n)" for n
      using members(4) by (simp add: destroy_tasks_apply)
    have enq: "futures s' (state_id t) = futures s (state_id t)"
      if "t \<in> set (enqueued (trace s))" "t \<notin> set (tasks s)" for t
    proof -
      have "state_id t \<notin> state_id ` set (tasks s)"
      proof
        assume "state_id t \<in> state_id ` set (tasks s)"
        then obtain u where u: "u \<in> set (tasks s)" "state_id t = state_id u" by auto
        then have "t = u" using same_id[OF assms(1) that(1), of u] p(2) by auto
        then show False using u(1) that(2) by simp
      qed
      then show ?thesis using fs[of "state_id t"] by simp
    qed
    show ?thesis
    proof (rule inv_futuresI)
      fix t assume "t \<in> set (tasks s')"
      then show "futures s' (state_id t) = Some Pending" using members(4) by simp
    next
      fix i t assume "i < length (workers s')" "workers s' ! i = W_run t"
      then have *: "i < length (workers s)" "workers s ! i = W_run t" using members(4) by simp_all
      have "t \<notin> set (tasks s)" using run_enq[OF *] p(4) by auto
      then show "futures s' (state_id t) = Some Pending"
        using enq[of t] f(2)[OF *] run_enq[OF *] p(1) by auto
    next
      fix x t assume "held (callers s' x) = Some t"
      then have o: "held (callers s x) = Some t" using members(4) by simp
      have "state_id t \<notin> state_id ` set (tasks s)" using h(2)[OF o] p(2) by auto
      then show "futures s' (state_id t) = Some Pending" using fs[of "state_id t"] f(3)[OF o] by simp
    next
      fix t assume "t \<in> set (executed (trace s'))"
      then have *: "t \<in> set (executed (trace s))" using members(4) by simp
      then have "t \<notin> set (tasks s)" using e(1) p(4) by auto
      then show "futures s' (state_id t) = Some (Ready (invoke (callable t)))"
        using enq[of t] f(4)[OF *] * e(1) p(1) by auto
    next
      fix t assume "t \<in> set (abandoned (trace s'))"
      then have *: "t \<in> set (tasks s)" using members(4) ab by simp
      then show "futures s' (state_id t) = Some (Ready (Inl Broken_promise))"
        using fs[of "state_id t"] f(1)[OF *] by (simp add: abandon_def)
    qed
  qed (rule inv_futures_frame[OF assms(4)];
        auto simp add: nth_list_update notify_one_eq notify_all_eq split: if_splits)+
qed

subsection \<open>No worker ends abnormally\<close>

lemma inv_crashI:
  assumes "\<And>i. i < length (workers s) \<Longrightarrow> workers s ! i \<noteq> W_crashed"
    and "\<And>i. Crashed i \<notin> set (trace s)"
  shows "inv_crash s"
  unfolding inv_crash_def using assms by blast

lemma inv_crashD:
  assumes "inv_crash s"
  shows "i < length (workers s) \<Longrightarrow> workers s ! i \<noteq> W_crashed"
    and "Crashed i \<notin> set (trace s)"
  using assms unfolding inv_crash_def by blast+

lemma inv_crash_step:
  assumes "inv_pred s" "inv_futures s" "inv_crash s" "step a s = Some s'"
  shows "inv_crash s'"
proof -
  note c = inv_crashD[OF assms(3)]
  note len = length_workers_step[OF assms(4)]
  show ?thesis
  proof (rule inv_crashI)
    fix j assume j: "j < length (workers s')"
    then have jl: "j < length (workers s)" using len by simp
    show "workers s' ! j \<noteq> W_crashed"
      using assms(4)
    proof (cases rule: step_cases)
      case (front_empty i)
      then show ?thesis using inv_predD[OF assms(1), of i] by simp
    next
      case (escape i t)
      then show ?thesis using inv_futuresD(2)[OF assms(2), of i t] by simp
    next
      case (notify c k h)
      then show ?thesis using nth_notify_one[OF jl, of k] c(1)[OF jl] by auto
    next
      case broadcast
      then show ?thesis using c(1)[OF jl] jl by (simp add: nth_notify_all)
    qed (use c(1)[OF jl] jl in \<open>auto simp: nth_list_update\<close>)
  next
    fix j
    show "Crashed j \<notin> set (trace s')"
      using assms(4)
    proof (cases rule: step_cases)
      case (front_empty i)
      then show ?thesis using inv_predD[OF assms(1), of i] by simp
    next
      case (escape i t)
      then show ?thesis using inv_futuresD(2)[OF assms(2), of i t] by simp
    qed (use c(2)[of j] in auto)
  qed
qed

subsection \<open>A single worker\<close>

lemma inv_single_step:
  assumes "inv_futures s" "inv_single s" "step a s = Some s'"
  shows "inv_single s'"
proof (cases "length (workers s) = 1")
  case False
  then show ?thesis using length_workers_step[OF assms(3)] by (simp add: inv_single_def)
next
  case True
  then have old: "dequeued (trace s) = executed (trace s) @ run_of (workers s ! 0)"
    using assms(2) by (simp add: inv_single_def)
  have len: "length (workers s') = 1" using True length_workers_step[OF assms(3)] by simp
  have "dequeued (trace s') = executed (trace s') @ run_of (workers s' ! 0)"
    using assms(3)
  proof (cases rule: step_cases)
    case (escape i t)
    then show ?thesis using inv_futuresD(2)[OF assms(1), of i t] by simp
  next
    case (notify c k h)
    have "run_of (notify_one k (workers s) ! 0) = run_of (workers s ! 0)"
      using nth_notify_one[of 0 "workers s" k] True by auto
    then show ?thesis using notify old by simp
  next
    case broadcast
    have "run_of (notify_all (workers s) ! 0) = run_of (workers s ! 0)"
      using True by (simp add: nth_notify_all)
    then show ?thesis using broadcast old by simp
  qed (use old True in \<open>auto simp: nth_list_update\<close>)
  then show ?thesis by (simp add: inv_single_def)
qed

subsection \<open>All invariants, in every reachable state\<close>

lemma inv_step:
  assumes "inv s" "step a s = Some s'"
  shows "inv s'"
proof -
  have c: "inv_ctl s" and q: "inv_queue s" and h: "inv_held s" and e: "inv_exec s"
    and f: "inv_futures s" and k: "inv_crash s" and o: "inv_single s"
    using assms(1) unfolding inv_def by blast+
  have p: "inv_pred s" using c unfolding inv_ctl_def by blast
  show ?thesis unfolding inv_def
    using inv_ctl_step[OF c assms(2)] inv_queue_step[OF q h assms(2)]
      inv_held_step[OF q h assms(2)] inv_exec_step[OF q e f assms(2)]
      inv_futures_step[OF q h e f assms(2)] inv_crash_step[OF p f k assms(2)]
      inv_single_step[OF f o assms(2)]
    by blast
qed

lemma inv_init: "inv (ThreadPool n)"
proof -
  have "inv_queue (ThreadPool n)" "inv_held (ThreadPool n)" "inv_exec (ThreadPool n)"
    "inv_futures (ThreadPool n)" "inv_crash (ThreadPool n)" "inv_single (ThreadPool n)"
    by (simp_all add: inv_queue_def inv_held_def inv_exec_def inv_futures_def inv_crash_def
        inv_single_def ThreadPool_def)
  then show ?thesis unfolding inv_def using inv_ctl_init by blast
qed

lemma inv_reachable:
  assumes "exec as (ThreadPool n) = Some s"
  shows "inv s"
  by (rule exec_invariant[of inv, OF inv_init _ assms]) (rule inv_step)

lemma inv_exec_from:
  assumes "inv s" "exec as s = Some s'"
  shows "inv s'"
  by (rule exec_invariant[of inv, OF assms(1) _ assms(2)]) (rule inv_step)

subsection \<open>Teardown\<close>

lemma inv_fresh_step:
  assumes "inv s" "inv_fresh s" "step a s = Some s'"
  shows "inv_fresh s'"
proof -
  have q: "inv_queue s" and e: "inv_exec s" using assms(1) unfolding inv_def by blast+
  note p = parts_of_enqueued[OF q]
  have old: "futures s h = None" if "next_state s \<le> h" for h
    using assms(2) that unfolding inv_fresh_def by blast
  have enq: "state_id t < next_state s" if "t \<in> set (enqueued (trace s))" for t
    using inv_queueD(3)[OF q that] .
  show ?thesis unfolding inv_fresh_def
  proof (intro allI impI)
    fix h assume h: "next_state s' \<le> h"
    show "futures s' h = None"
      using assms(3)
    proof (cases rule: step_cases)
      case (run i t)
      have "t \<in> set (enqueued (trace s))" using inv_execD(4)[OF e run(2,3)] p(1) by auto
      then have "state_id t \<noteq> h" using enq[of t] h run(5) by auto
      then show ?thesis using run(5) old[of h] h by simp
    next
      case (members j)
      have "destroy_tasks (tasks s) (futures s) h = abandon (futures s h) \<or>
            destroy_tasks (tasks s) (futures s) h = futures s h"
        by (simp add: destroy_tasks_apply)
      then show ?thesis using members(4) old[of h] h by (auto simp: abandon_def)
    qed (use old[of h] h in auto)
  qed
qed

lemma inv_fresh_init: "inv_fresh (ThreadPool n)"
  by (simp add: inv_fresh_def ThreadPool_def)

lemma inv_drained_step:
  assumes "inv_ctl s" "inv_drained s" "step a s = Some s'"
  shows "inv_drained s'"
proof (cases "workers s = []")
  case True
  then show ?thesis using length_workers_step[OF assms(3)] by (simp add: inv_drained_def)
next
  case False
  then have old: "abandoned (trace s) = []" using assms(2) by (simp add: inv_drained_def)
  have "abandoned (trace s') = []"
    using assms(3)
  proof (cases rule: step_cases)
    case (members j)
    have "0 < length (workers s)" using False by simp
    then have "0 < j" using members(3) by linarith
    then have "workers s ! 0 = W_exited"
      using assms(1) members(2) \<open>0 < length (workers s)\<close>
      unfolding inv_ctl_def inv_join_def by blast
    then have "tasks s = []"
      using assms(1) \<open>0 < length (workers s)\<close> unfolding inv_ctl_def inv_exit_def by blast
    then show ?thesis using members(4) old by simp
  qed (use old in auto)
  then show ?thesis by (simp add: inv_drained_def)
qed

lemma inv_drained_init: "inv_drained (ThreadPool n)"
  by (simp add: inv_drained_def ThreadPool_def)

lemma notify_all_awake: "i < length ws \<Longrightarrow> notify_all ws ! i \<noteq> W_blocked"
  by (simp add: nth_notify_all)

lemma count_list_Abandoned:
  "e \<noteq> Abandoned t \<Longrightarrow> (\<And>u. e \<noteq> Abandoned u) \<Longrightarrow> count_list (map Abandoned ts) e = 0"
  by (induction ts) auto

lemma inv_signals_step:
  assumes "inv_ctl s" "inv_signals s" "step a s = Some s'"
  shows "inv_signals s'"
proof -
  have st: "inv_stop s" using assms(1) unfolding inv_ctl_def by blast
  have c1: "count_list (trace s) Stop_set = (if stop s then 1 else 0)"
    and c2: "count_list (trace s) Notify_all = (if past_broadcast (owner s) then 1 else 0)"
    and aw: "\<And>i. past_broadcast (owner s) \<Longrightarrow> i < length (workers s)
              \<Longrightarrow> workers s ! i \<noteq> W_blocked"
    using assms(2) unfolding inv_signals_def by blast+
  have stopped: "stop s" if "past_broadcast (owner s)"
    using st that unfolding inv_stop_def past_broadcast_def by (auto split: dtor.splits)
  note len = length_workers_step[OF assms(3)]
  have 1: "count_list (trace s') Stop_set = (if stop s' then 1 else 0)"
    using assms(3)
  proof (cases rule: step_cases)
    case set_stop
    then show ?thesis using c1 st by (simp add: inv_stop_def)
  next
    case (members j)
    have "count_list (map Abandoned (tasks s)) Stop_set = 0"
      by (rule count_list_Abandoned) simp_all
    then show ?thesis using members c1 by simp
  qed (use c1 in auto)
  have 2: "count_list (trace s') Notify_all = (if past_broadcast (owner s') then 1 else 0)"
    using assms(3)
  proof (cases rule: step_cases)
    case (members j)
    have "count_list (map Abandoned (tasks s)) Notify_all = 0"
      by (rule count_list_Abandoned) simp_all
    then show ?thesis using members c2 by (simp add: past_broadcast_def)
  qed (use c2 in \<open>auto simp: past_broadcast_def\<close>)
  have 3: "workers s' ! i \<noteq> W_blocked"
    if pb: "past_broadcast (owner s')" and i: "i < length (workers s')" for i
  proof -
    have il: "i < length (workers s)" using i len by simp
    show ?thesis using assms(3)
    proof (cases rule: step_cases)
      case (block j)
      then have "past_broadcast (owner s)" using pb by simp
      then show ?thesis using stopped block(4) by simp
    next
      case broadcast
      then show ?thesis using notify_all_awake[OF il] by simp
    next
      case (notify c k h)
      then have "past_broadcast (owner s)" using pb by simp
      then show ?thesis using aw[OF _ il] nth_notify_one[OF il, of k] notify(4) by auto
    qed (use pb aw[OF _ il] il in \<open>auto simp: nth_list_update past_broadcast_def\<close>)
  qed
  show ?thesis unfolding inv_signals_def using 1 2 3 by blast
qed

lemma inv_signals_init: "inv_signals (ThreadPool n)"
  by (simp add: inv_signals_def ThreadPool_def past_broadcast_def)

lemma teardown_reachable:
  assumes "exec as (ThreadPool n) = Some s"
  shows "inv s \<and> inv_fresh s \<and> inv_drained s \<and> inv_signals s"
proof (rule exec_invariant[of "\<lambda>s. inv s \<and> inv_fresh s \<and> inv_drained s \<and> inv_signals s",
      OF _ _ assms])
  show "inv (ThreadPool n) \<and> inv_fresh (ThreadPool n) \<and> inv_drained (ThreadPool n)
      \<and> inv_signals (ThreadPool n)"
    using inv_init inv_fresh_init inv_drained_init inv_signals_init by blast
next
  fix a and s s' :: "('a, 'b) sys"
  assume *: "inv s \<and> inv_fresh s \<and> inv_drained s \<and> inv_signals s" and st: "step a s = Some s'"
  then have c: "inv_ctl s" unfolding inv_def by blast
  show "inv s' \<and> inv_fresh s' \<and> inv_drained s' \<and> inv_signals s'"
    using * inv_step[OF _ st] inv_fresh_step[OF _ _ st] inv_drained_step[OF c _ st]
      inv_signals_step[OF c _ st] by blast
qed

lemmas run_defs =
  ThreadPool_def submit_begin_def submit_step_def worker_step_def dtor_step_def
  spurious_wakeup_def in_call_def notify_one_def notify_all_def abandon_def invoke_def
  returning_def throwing_def call_def serve_def leave_def call_result_def future_get_def
  enqueued_def dequeued_def executed_def abandoned_def


lemma reachableD:
  assumes "exec as (ThreadPool n) = Some s"
  shows "inv_ctl s" "inv_queue s" "inv_held s" "inv_exec s" "inv_futures s" "inv_crash s"
    "inv_single s" "inv_fresh s" "inv_drained s" "inv_signals s" "length (workers s) = n"
  using teardown_reachable[OF assms] length_workers_reachable[OF assms]
  unfolding inv_def by blast+

lemma all_exited_drained:
  assumes "inv_ctl s" "inv_queue s" "inv_exec s" "inv_drained s" "workers s \<noteq> []"
    "\<And>i. i < length (workers s) \<Longrightarrow> workers s ! i = W_exited"
  shows "tasks s = []" "abandoned (trace s) = []"
    "set (enqueued (trace s)) \<subseteq> set (executed (trace s))"
proof -
  have 0: "0 < length (workers s)" using assms(5) by simp
  have "workers s ! 0 = W_exited" by (rule assms(6)[OF 0])
  then show t: "tasks s = []"
    using assms(1) 0 unfolding inv_ctl_def inv_exit_def by blast
  show a: "abandoned (trace s) = []" using assms(4,5) by (simp add: inv_drained_def)
  have "t \<in> set (executed (trace s))" if "t \<in> set (dequeued (trace s))" for t
    using inv_execD(3)[OF assms(3) that] assms(6) by auto
  then show "set (enqueued (trace s)) \<subseteq> set (executed (trace s))"
    using inv_queueD(1)[OF assms(2)] t a by auto
qed

lemma joined_all_exited:
  assumes "inv_ctl s" "owner s = D_join (length (workers s)) \<or> owner s = D_destroyed"
    "i < length (workers s)"
  shows "workers s ! i = W_exited"
  using assms unfolding inv_ctl_def inv_join_def by blast

lemma only_exit_exits:
  assumes "step a s = Some s'" "i < length (workers s)" "workers s ! i \<noteq> W_exited"
    "workers s' ! i = W_exited"
  shows "a = Work i \<and> workers s ! i = W_locked \<and> stop s \<and> tasks s = []"
  using assms(1)
proof (cases rule: step_cases)
  case (notify c k h)
  then show ?thesis using nth_notify_one[OF assms(2), of k] assms(3,4) by auto
next
  case broadcast
  then show ?thesis using assms(2,3,4) by (auto simp: nth_notify_all split: if_splits)
qed (use assms(2,3,4) in \<open>auto simp: nth_list_update split: if_splits\<close>)

subsection \<open>Consequences for the order and the number of executions\<close>

lemma dequeued_prefix:
  assumes "inv_queue s"
  shows "prefix (dequeued (trace s)) (enqueued (trace s))"
  using inv_queueD(1)[OF assms] by (simp add: prefix_def)

lemma executed_prefix_single:
  assumes "inv_single s" "length (workers s) = 1"
  shows "prefix (executed (trace s)) (dequeued (trace s))"
  using assms by (simp add: inv_single_def prefix_def)



lemma stop_step:
  assumes "step a s = Some s'"
  shows "stop s \<longrightarrow> stop s'"
    and "\<not> stop s \<longrightarrow> stop s' \<longrightarrow> a = Destroy \<and> owner s = D_locked"
    and "a = Destroy \<longrightarrow> count_list (trace s') Notify_one = count_list (trace s) Notify_one"
    and "a = Destroy \<longrightarrow> owner s = D_notify \<longrightarrow>
          workers s' = notify_all (workers s) \<and> trace s' = trace s @ [Notify_all]"
proof -
  show "stop s \<longrightarrow> stop s'" using assms by (cases rule: step_cases) auto
  show "\<not> stop s \<longrightarrow> stop s' \<longrightarrow> a = Destroy \<and> owner s = D_locked"
    using assms by (cases rule: step_cases) auto
  show "a = Destroy \<longrightarrow> owner s = D_notify \<longrightarrow>
          workers s' = notify_all (workers s) \<and> trace s' = trace s @ [Notify_all]"
    using assms by (cases rule: step_cases) auto
  show "a = Destroy \<longrightarrow> count_list (trace s') Notify_one = count_list (trace s) Notify_one"
    using assms
  proof (cases rule: step_cases)
    case (members j)
    have "count_list (map Abandoned (tasks s)) Notify_one = 0"
      by (rule count_list_Abandoned) simp_all
    then show ?thesis using members by simp
  qed auto
qed

subsection \<open>A call of submit, run to its end\<close>


lemma submit_rejected:
  assumes "stop s" "\<not> in_call (callers s c)" "queue_mutex s = None" "owner s \<noteq> D_destroyed"
  shows "submit c f s =
    Some (s\<lparr>queue_mutex := None,
            futures := (futures s)(next_state s := None),
            next_state := Suc (next_state s),
            callers := (callers s)(c := S_thrown PoolShutdown),
            trace := trace s @ [Rejected c]\<rparr>)"
  using assms by (simp add: submit_def submit_begin_def submit_step_def in_call_def)

lemma submit_accepted:
  assumes "\<not> stop s" "\<not> in_call (callers s c)" "queue_mutex s = None" "owner s \<noteq> D_destroyed"
  shows "submit c f s =
    Some (s\<lparr>workers := notify_one 0 (workers s),
            tasks := tasks s @ [Packaged_task f (next_state s)],
            queue_mutex := None,
            futures := (futures s)(next_state s \<mapsto> Pending),
            next_state := Suc (next_state s),
            callers := (callers s)(c := S_returned (next_state s)),
            trace := trace s @ [Enqueued (Packaged_task f (next_state s)), Notify_one]\<rparr>)"
  using assms by (simp add: submit_def submit_begin_def submit_step_def in_call_def)





lemma run_wrapper:
  assumes "i < length (workers s)" "workers s ! i = W_run t"
    "futures s (state_id t) = Some Pending"
  shows "worker_step i s =
    Some (s\<lparr>futures := (futures s)(state_id t \<mapsto> Ready (invoke (callable t))),
            workers := (workers s)[i := W_lock],
            trace := trace s @ [Executed i t]\<rparr>)"
  using assms by (simp add: worker_step_def)

subsection \<open>The locked block of a call on a stopped pool\<close>

lemma locked_block_throws:
  assumes "stop s" "owner s \<noteq> D_destroyed" "callers s c = S_locked t"
  shows "\<exists>s'. submit_step c k s = Some s' \<and> callers s' c = S_thrown PoolShutdown
      \<and> tasks s' = tasks s \<and> workers s' = workers s \<and> trace s' = trace s @ [Rejected c]"
  using assms by (simp add: submit_step_def)

subsection \<open>A pool without workers\<close>

lemma inv_joining_step:
  assumes "inv_joining s" "step a s = Some s'"
  shows "inv_joining s'"
proof -
  have j: "k \<le> length (workers s)" if "owner s = D_join k" for k
    using assms(1) that unfolding inv_joining_def by blast
  have d: "tasks s = []" if "owner s = D_destroyed"
    using assms(1) that unfolding inv_joining_def by blast
  have z: "dequeued (trace s) = []" "executed (trace s) = []" if "workers s = []"
    using assms(1) that unfolding inv_joining_def by blast+
  note len = length_workers_step[OF assms(2)]
  have 1: "k \<le> length (workers s')" if "owner s' = D_join k" for k
    using assms(2)
  proof (cases rule: step_cases)
    case (join i)
    then show ?thesis using that by auto
  qed (use that j[of k] in auto)
  have 2: "tasks s' = []" if "owner s' = D_destroyed"
    using assms(2) by (cases rule: step_cases) (use that d in auto)
  have 3: "dequeued (trace s') = [] \<and> executed (trace s') = []" if "workers s' = []"
  proof -
    have w: "workers s = []" using that len by simp
    show ?thesis using assms(2) by (cases rule: step_cases) (use w z[OF w] in auto)
  qed
  show ?thesis unfolding inv_joining_def using 1 2 3 by blast
qed

lemma inv_joining_reachable:
  assumes "exec as (ThreadPool n) = Some s"
  shows "inv_joining s"
proof (rule exec_invariant[of inv_joining, OF _ _ assms])
  show "inv_joining (ThreadPool n)" by (simp add: inv_joining_def ThreadPool_def)
qed (rule inv_joining_step)

lemma members_step:
  assumes "owner s = D_join k" "length (workers s) \<le> k"
  shows "dtor_step s =
    Some (s\<lparr>futures := destroy_tasks (tasks s) (futures s), tasks := [],
            owner := D_destroyed, trace := trace s @ map Abandoned (tasks s)\<rparr>)"
  using assms by (simp add: dtor_step_def)

subsection \<open>Progress: the mutex is released, workers finish, teardown completes\<close>

lemma reaches_refl: "reaches s s"
  unfolding reaches_def by (rule exI[of _ "[]"]) simp

lemma reaches_trans: "reaches s s1 \<Longrightarrow> reaches s1 s2 \<Longrightarrow> reaches s s2"
  unfolding reaches_def
proof -
  assume "\<exists>bs. exec bs s = Some s1" "\<exists>bs. exec bs s1 = Some s2"
  then obtain bs cs where "exec bs s = Some s1" "exec cs s1 = Some s2" by blast
  then have "exec (bs @ cs) s = Some s2" by (simp add: exec_append)
  then show "\<exists>bs. exec bs s = Some s2" by blast
qed

lemma reaches_step: "step a s = Some s' \<Longrightarrow> reaches s s'"
  unfolding reaches_def by (rule exI[of _ "[a]"]) simp

lemma good_step:
  assumes "good s" "step a s = Some s'"
  shows "good s'"
proof -
  have c: "inv_ctl s" using assms(1) unfolding good_def inv_def by blast
  show ?thesis
    using assms(1) inv_step[OF _ assms(2)] inv_fresh_step[OF _ _ assms(2)]
      inv_drained_step[OF c _ assms(2)] inv_signals_step[OF c _ assms(2)]
      inv_joining_step[OF _ assms(2)]
    unfolding good_def by blast
qed

lemma good_reaches:
  assumes "good s" "reaches s s'"
  shows "good s'"
proof -
  obtain bs where "exec bs s = Some s'" using assms(2) unfolding reaches_def by blast
  from exec_invariant[of good, OF assms(1) _ this] good_step show ?thesis by blast
qed

lemma good_reachable:
  assumes "exec as (ThreadPool n) = Some s"
  shows "good s"
  using teardown_reachable[OF assms] inv_joining_reachable[OF assms] unfolding good_def by blast

lemma goodD:
  assumes "good s"
  shows "inv_mutex s" "inv_stop s" "inv_pred s" "inv_futures s" "inv_crash s" "inv_signals s"
    "inv_joining s" "inv_join s"
  using assms unfolding good_def inv_def inv_ctl_def by blast+

lemma release_locked:
  assumes "inv_pred s" "i < length (workers s)" "workers s ! i = W_locked"
  shows "\<exists>s1. step (Work i) s = Some s1 \<and> queue_mutex s1 = None \<and> owner s1 = owner s
    \<and> stop s1 = stop s \<and> length (tasks s1) \<le> length (tasks s)
    \<and> length (workers s1) = length (workers s)
    \<and> (\<forall>j. j \<noteq> i \<longrightarrow> workers s1 ! j = workers s ! j)
    \<and> callers s1 = callers s"
proof (cases "tasks s")
  case Nil
  then have "stop s" using inv_predD[OF assms] by simp
  then show ?thesis using assms(2,3) Nil by (simp add: worker_step_def)
next
  case (Cons t ts)
  then show ?thesis using assms(2,3) by (simp add: worker_step_def)
qed

lemma release_wait:
  assumes "inv_pred s" "i < length (workers s)" "workers s ! i = W_wait"
  shows "\<exists>s1. reaches s s1 \<and> queue_mutex s1 = None \<and> owner s1 = owner s
    \<and> stop s1 = stop s \<and> length (tasks s1) \<le> length (tasks s)
    \<and> length (workers s1) = length (workers s)
    \<and> (\<forall>j. j \<noteq> i \<longrightarrow> workers s1 ! j = workers s ! j)
    \<and> callers s1 = callers s"
proof (cases "stop s \<or> tasks s \<noteq> []")
  case False
  then have "step (Work i) s = Some (s\<lparr>queue_mutex := None, workers := (workers s)[i := W_blocked]\<rparr>)"
    using assms(2,3) by (simp add: worker_step_def)
  from reaches_step[OF this] show ?thesis
    by (intro exI[of _ "s\<lparr>queue_mutex := None, workers := (workers s)[i := W_blocked]\<rparr>"]) simp
next
  case True
  let ?s' = "s\<lparr>workers := (workers s)[i := W_locked]\<rparr>"
  have st: "step (Work i) s = Some ?s'" using assms(2,3) True by (simp add: worker_step_def)
  have p: "inv_pred ?s'"
    unfolding inv_pred_def using True by simp
  have "i < length (workers ?s')" "workers ?s' ! i = W_locked" using assms(2) by simp_all
  from release_locked[OF p this] obtain s1 where s1: "step (Work i) ?s' = Some s1"
    "queue_mutex s1 = None" "owner s1 = owner ?s'" "stop s1 = stop ?s'"
    "length (tasks s1) \<le> length (tasks ?s')" "length (workers s1) = length (workers ?s')"
    "\<forall>j. j \<noteq> i \<longrightarrow> workers s1 ! j = workers ?s' ! j" "callers s1 = callers ?s'" by blast
  have "reaches s s1" using reaches_trans[OF reaches_step[OF st] reaches_step[OF s1(1)]] .
  moreover have "\<forall>j. j \<noteq> i \<longrightarrow> workers s1 ! j = workers s ! j" using s1(7) by simp
  ultimately show ?thesis using s1(2-6,8) by (intro exI[of _ s1]) simp
qed

lemma release_caller:
  assumes "owner s \<noteq> D_destroyed" "callers s c = S_locked t"
  shows "\<exists>s1. step (In_submit c 0) s = Some s1 \<and> queue_mutex s1 = None \<and> owner s1 = owner s
    \<and> stop s1 = stop s \<and> (stop s \<longrightarrow> length (tasks s1) \<le> length (tasks s))
    \<and> workers s1 = workers s
    \<and> (\<forall>c'. c' \<noteq> c \<longrightarrow> callers s1 c' = callers s c')"
  using assms by (simp add: submit_step_def)

lemma release:
  assumes "good s" "owner s \<noteq> D_locked" "owner s \<noteq> D_destroyed"
  shows "\<exists>s1. reaches s s1 \<and> queue_mutex s1 = None \<and> owner s1 = owner s
    \<and> stop s1 = stop s \<and> (stop s \<longrightarrow> length (tasks s1) \<le> length (tasks s))
    \<and> length (workers s1) = length (workers s)
    \<and> (\<forall>j. workers s ! j \<noteq> W_wait \<longrightarrow> workers s ! j \<noteq> W_locked
          \<longrightarrow> workers s1 ! j = workers s ! j)
    \<and> (\<forall>c. (\<forall>t. callers s c \<noteq> S_locked t) \<longrightarrow> callers s1 c = callers s c)"
proof (cases "queue_mutex s")
  case None
  then show ?thesis using reaches_refl[of s] by (intro exI[of _ s]) simp
next
  case (Some th)
  have h: "holds_mutex th s" using goodD(1)[OF assms(1)] Some unfolding inv_mutex_def by blast
  note p = goodD(3)[OF assms(1)]
  show ?thesis
  proof (cases th)
    case Owner
    then show ?thesis using h assms(2) by simp
  next
    case (Caller c)
    then obtain t where "callers s c = S_locked t"
      using h by (cases "callers s c") simp_all
    from release_caller[OF assms(3) this] obtain s1 where s1:
      "step (In_submit c 0) s = Some s1" "queue_mutex s1 = None" "owner s1 = owner s"
      "stop s1 = stop s" "stop s \<longrightarrow> length (tasks s1) \<le> length (tasks s)"
      "workers s1 = workers s" "\<forall>c'. c' \<noteq> c \<longrightarrow> callers s1 c' = callers s c'" by blast
    have "\<forall>c'. (\<forall>t. callers s c' \<noteq> S_locked t) \<longrightarrow> callers s1 c' = callers s c'"
      using s1(7) \<open>callers s c = S_locked t\<close> by metis
    with reaches_step[OF s1(1)] s1(2-6) show ?thesis by (intro exI[of _ s1]) simp
  next
    case (Worker i)
    then have i: "i < length (workers s)" "workers s ! i = W_wait \<or> workers s ! i = W_locked"
      using h by simp_all
    have "\<exists>s1. reaches s s1 \<and> queue_mutex s1 = None \<and> owner s1 = owner s
        \<and> stop s1 = stop s \<and> length (tasks s1) \<le> length (tasks s)
        \<and> length (workers s1) = length (workers s)
        \<and> (\<forall>j. j \<noteq> i \<longrightarrow> workers s1 ! j = workers s ! j)
        \<and> callers s1 = callers s"
      using i(2)
    proof
      assume "workers s ! i = W_wait"
      then show ?thesis by (rule release_wait[OF p i(1)])
    next
      assume w: "workers s ! i = W_locked"
      from release_locked[OF p i(1) w] obtain s1 where s1: "step (Work i) s = Some s1"
        "queue_mutex s1 = None \<and> owner s1 = owner s
        \<and> stop s1 = stop s \<and> length (tasks s1) \<le> length (tasks s)
        \<and> length (workers s1) = length (workers s)
        \<and> (\<forall>j. j \<noteq> i \<longrightarrow> workers s1 ! j = workers s ! j)
        \<and> callers s1 = callers s" by blast
      from reaches_step[OF s1(1)] s1(2) show ?thesis by blast
    qed
    then obtain s1 where s1: "reaches s s1" "queue_mutex s1 = None" "owner s1 = owner s"
      "stop s1 = stop s" "length (tasks s1) \<le> length (tasks s)"
      "length (workers s1) = length (workers s)"
      "\<forall>j. j \<noteq> i \<longrightarrow> workers s1 ! j = workers s ! j" "callers s1 = callers s" by blast
    have "\<forall>j. workers s ! j \<noteq> W_wait \<longrightarrow> workers s ! j \<noteq> W_locked
          \<longrightarrow> workers s1 ! j = workers s ! j"
      using s1(7) i(2) by metis
    then show ?thesis using s1(1-6,8) by (intro exI[of _ s1]) simp
  qed
qed

lemma joining_facts:
  assumes "good s" "owner s = D_join k"
  shows "stop s" "k \<le> length (workers s)"
    "i < length (workers s) \<Longrightarrow> workers s ! i \<noteq> W_blocked"
    "i < length (workers s) \<Longrightarrow> workers s ! i \<noteq> W_crashed"
proof -
  show "stop s" using goodD(2)[OF assms(1)] assms(2) by (simp add: inv_stop_def)
  show "k \<le> length (workers s)"
    using goodD(7)[OF assms(1)] assms(2) unfolding inv_joining_def by blast
  have "past_broadcast (owner s)" using assms(2) by (simp add: past_broadcast_def)
  then show "i < length (workers s) \<Longrightarrow> workers s ! i \<noteq> W_blocked"
    using goodD(6)[OF assms(1)] unfolding inv_signals_def by blast
  show "i < length (workers s) \<Longrightarrow> workers s ! i \<noteq> W_crashed"
    using inv_crashD(1)[OF goodD(5)[OF assms(1)]] by blast
qed

lemma worker_exits:
  assumes "good s" "owner s = D_join k" "j < length (workers s)"
  shows "\<exists>s1. reaches s s1 \<and> workers s1 ! j = W_exited \<and> owner s1 = D_join k
    \<and> length (workers s1) = length (workers s)"
  using assms
proof (induction "4 * length (tasks s) + rank (workers s ! j)" arbitrary: s rule: less_induct)
  case less
  note g = less.prems(1) and o = less.prems(2) and j = less.prems(3)
  note jf = joining_facts[OF g o]
  have next_state: "\<exists>s1. reaches s s1 \<and> workers s1 ! j = W_exited \<and> owner s1 = D_join k
      \<and> length (workers s1) = length (workers s)"
    if r: "reaches s s2" and m: "4 * length (tasks s2) + rank (workers s2 ! j)
        < 4 * length (tasks s) + rank (workers s ! j)"
      and o2: "owner s2 = D_join k" and l2: "length (workers s2) = length (workers s)" for s2
  proof -
    have g2: "good s2" by (rule good_reaches[OF g r])
    have "j < length (workers s2)" using j l2 by simp
    from less.hyps[OF m g2 o2 this] obtain s1 where "reaches s2 s1"
      "workers s1 ! j = W_exited" "owner s1 = D_join k"
      "length (workers s1) = length (workers s2)" by blast
    then show ?thesis using reaches_trans[OF r] l2 by (intro exI[of _ s1]) simp
  qed
  show ?case
  proof (cases "workers s ! j")
    case W_exited
    then show ?thesis using reaches_refl[of s] o by (intro exI[of _ s]) simp
  next
    case W_blocked
    then show ?thesis using jf(3)[OF j] by simp
  next
    case W_crashed
    then show ?thesis using jf(4)[OF j] by simp
  next
    case W_lock
    have "owner s \<noteq> D_locked" "owner s \<noteq> D_destroyed" using o by simp_all
    from release[OF g this] obtain s1 where s1: "reaches s s1" "queue_mutex s1 = None"
      "owner s1 = owner s" "stop s1 = stop s" "stop s \<longrightarrow> length (tasks s1) \<le> length (tasks s)"
      "length (workers s1) = length (workers s)"
      "\<forall>i. workers s ! i \<noteq> W_wait \<longrightarrow> workers s ! i \<noteq> W_locked
          \<longrightarrow> workers s1 ! i = workers s ! i" by blast
    have w1: "workers s1 ! j = W_lock" using s1(7) W_lock by simp
    let ?s2 = "s1\<lparr>queue_mutex := Some (Worker j), workers := (workers s1)[j := W_wait]\<rparr>"
    have "step (Work j) s1 = Some ?s2" using w1 s1(2,6) j by (simp add: worker_step_def)
    then have r: "reaches s ?s2" using reaches_trans[OF s1(1)] reaches_step by blast
    show ?thesis
    proof (rule next_state[OF r])
      show "4 * length (tasks ?s2) + rank (workers ?s2 ! j)
          < 4 * length (tasks s) + rank (workers s ! j)"
        using s1(5,6) jf(1) j W_lock by simp
    qed (use s1(3,6) o in simp_all)
  next
    case W_wait
    let ?s2 = "s\<lparr>workers := (workers s)[j := W_locked]\<rparr>"
    have "step (Work j) s = Some ?s2" using W_wait jf(1) j by (simp add: worker_step_def)
    then have r: "reaches s ?s2" by (rule reaches_step)
    show ?thesis
    proof (rule next_state[OF r])
      show "4 * length (tasks ?s2) + rank (workers ?s2 ! j)
          < 4 * length (tasks s) + rank (workers s ! j)"
        using j W_wait by simp
    qed (use o in simp_all)
  next
    case W_locked
    show ?thesis
    proof (cases "tasks s")
      case Nil
      let ?s1 = "s\<lparr>queue_mutex := None, workers := (workers s)[j := W_exited],
          trace := trace s @ [Exited j]\<rparr>"
      have "step (Work j) s = Some ?s1"
        using W_locked Nil jf(1) j by (simp add: worker_step_def)
      from reaches_step[OF this] show ?thesis using j o by (intro exI[of _ ?s1]) simp
    next
      case (Cons t ts)
      let ?s2 = "s\<lparr>tasks := ts, queue_mutex := None, workers := (workers s)[j := W_run t],
          trace := trace s @ [Dequeued j t]\<rparr>"
      have "step (Work j) s = Some ?s2"
        using W_locked Cons j by (simp add: worker_step_def)
      then have r: "reaches s ?s2" by (rule reaches_step)
      show ?thesis
      proof (rule next_state[OF r])
        show "4 * length (tasks ?s2) + rank (workers ?s2 ! j)
            < 4 * length (tasks s) + rank (workers s ! j)"
          using j W_locked Cons by simp
      qed (use o in simp_all)
    qed
  next
    case (W_run t)
    have "futures s (state_id t) = Some Pending"
      by (rule inv_futuresD(2)[OF goodD(4)[OF g] j W_run])
    from run_wrapper[OF j W_run this]
    have st: "step (Work j) s = Some (s\<lparr>futures := (futures s)(state_id t \<mapsto>
        Ready (invoke (callable t))), workers := (workers s)[j := W_lock],
        trace := trace s @ [Executed j t]\<rparr>)" (is "_ = Some ?s2") by simp
    then have r: "reaches s ?s2" by (rule reaches_step)
    show ?thesis
    proof (rule next_state[OF r])
      show "4 * length (tasks ?s2) + rank (workers ?s2 ! j)
          < 4 * length (tasks s) + rank (workers s ! j)"
        using j W_run by simp
    qed (use o in simp_all)
  qed
qed

lemma join_all:
  assumes "good s" "owner s = D_join k"
  shows "\<exists>s1. reaches s s1 \<and> owner s1 = D_join (length (workers s))
    \<and> length (workers s1) = length (workers s)"
  using assms
proof (induction "length (workers s) - k" arbitrary: s k)
  case 0
  then have "k = length (workers s)" using joining_facts(2)[OF "0.prems"] by simp
  then show ?case using reaches_refl[of s] "0.prems"(2) by (intro exI[of _ s]) simp
next
  case (Suc d)
  then have k: "k < length (workers s)" by simp
  from worker_exits[OF Suc.prems k] obtain s1 where s1: "reaches s s1"
    "workers s1 ! k = W_exited" "owner s1 = D_join k"
    "length (workers s1) = length (workers s)" by blast
  let ?s2 = "s1\<lparr>owner := D_join (Suc k), trace := trace s1 @ [Joined k]\<rparr>"
  have "step Destroy s1 = Some ?s2" using s1(2,3,4) k by (simp add: dtor_step_def)
  then have r: "reaches s ?s2" using reaches_trans[OF s1(1)] reaches_step by blast
  have g2: "good ?s2" by (rule good_reaches[OF Suc.prems(1) r])
  have "d = length (workers ?s2) - Suc k" using Suc.hyps(2) s1(4) by simp
  from Suc.hyps(1)[OF this g2] obtain s3 where "reaches ?s2 s3"
    "owner s3 = D_join (length (workers ?s2))" "length (workers s3) = length (workers ?s2)"
    by auto
  then show ?case using reaches_trans[OF r] s1(4) by (intro exI[of _ s3]) simp
qed

lemma teardown_completes:
  assumes "good s"
  shows "\<exists>s'. reaches s s' \<and> owner s' = D_destroyed"
proof -
  have joining: "\<exists>s'. reaches s1 s' \<and> owner s' = D_destroyed"
    if g: "good s1" and o: "owner s1 = D_join k" for s1 :: "('a, 'b) sys" and k
  proof -
    from join_all[OF g o] obtain s2 where s2: "reaches s1 s2"
      "owner s2 = D_join (length (workers s1))" "length (workers s2) = length (workers s1)"
      by blast
    have "map_option owner (dtor_step s2) = Some D_destroyed"
      using members_step[of s2 "length (workers s1)"] s2(2,3) by simp
    then obtain s3 where "step Destroy s2 = Some s3" "owner s3 = D_destroyed" by auto
    then show ?thesis using reaches_trans[OF s2(1)] reaches_step by blast
  qed
  have notify: "\<exists>s'. reaches s1 s' \<and> owner s' = D_destroyed"
    if g: "good s1" and o: "owner s1 = D_notify" for s1 :: "('a, 'b) sys"
  proof -
    let ?s2 = "s1\<lparr>workers := notify_all (workers s1), owner := D_join 0,
        trace := trace s1 @ [Notify_all]\<rparr>"
    have "step Destroy s1 = Some ?s2" using o by (simp add: dtor_step_def)
    then have r: "reaches s1 ?s2" by (rule reaches_step)
    from joining[OF good_reaches[OF g r], of 0] show ?thesis using reaches_trans[OF r] by auto
  qed
  have locked: "\<exists>s'. reaches s1 s' \<and> owner s' = D_destroyed"
    if g: "good s1" and o: "owner s1 = D_locked" for s1 :: "('a, 'b) sys"
  proof -
    let ?s2 = "s1\<lparr>stop := True, queue_mutex := None, owner := D_notify,
        trace := trace s1 @ [Stop_set]\<rparr>"
    have "step Destroy s1 = Some ?s2" using o by (simp add: dtor_step_def)
    then have r: "reaches s1 ?s2" by (rule reaches_step)
    from notify[OF good_reaches[OF g r]] show ?thesis using reaches_trans[OF r] by auto
  qed
  show ?thesis
  proof (cases "owner s")
    case D_destroyed
    then show ?thesis using reaches_refl[of s] by blast
  next
    case (D_join k)
    then show ?thesis by (rule joining[OF assms])
  next
    case D_notify
    then show ?thesis by (rule notify[OF assms])
  next
    case D_locked
    then show ?thesis by (rule locked[OF assms])
  next
    case D_alive
    then have "owner s \<noteq> D_locked" "owner s \<noteq> D_destroyed" by simp_all
    from release[OF assms this] obtain s1 where s1: "reaches s s1" "queue_mutex s1 = None"
      "owner s1 = owner s" by blast
    let ?s2 = "s1\<lparr>queue_mutex := Some Owner, owner := D_locked\<rparr>"
    have "step Destroy s1 = Some ?s2" using s1(2,3) D_alive by (simp add: dtor_step_def)
    then have r: "reaches s ?s2" using reaches_trans[OF s1(1)] reaches_step by blast
    from locked[OF good_reaches[OF assms r]] show ?thesis using reaches_trans[OF r] by auto
  qed
qed

lemma trace_grows:
  assumes "step a s = Some s'"
  shows "\<exists>es. trace s' = trace s @ es"
  using assms by (cases rule: step_cases) auto

lemma enqueued_grows:
  assumes "reaches s s'"
  shows "set (enqueued (trace s)) \<subseteq> set (enqueued (trace s'))"
proof -
  obtain bs where bs: "exec bs s = Some s'" using assms unfolding reaches_def by blast
  have "\<And>a s s'. set (enqueued (trace s0)) \<subseteq> set (enqueued (trace s))
          \<Longrightarrow> step a s = Some s' \<Longrightarrow> set (enqueued (trace s0)) \<subseteq> set (enqueued (trace s'))"
    for s0 :: "('a, 'b) sys"
  proof -
    fix a and s s' :: "('a, 'b) sys"
    assume *: "set (enqueued (trace s0)) \<subseteq> set (enqueued (trace s))" "step a s = Some s'"
    from trace_grows[OF *(2)] obtain es where "trace s' = trace s @ es" by blast
    then show "set (enqueued (trace s0)) \<subseteq> set (enqueued (trace s'))" using *(1) by auto
  qed
  from exec_invariant[of "\<lambda>x. set (enqueued (trace s)) \<subseteq> set (enqueued (trace x))", OF _ this bs]
  show ?thesis by simp
qed

lemma eventually_all_executed:
  assumes "exec as (ThreadPool n) = Some s" "0 < n"
  shows "\<exists>bs s'. exec bs s = Some s' \<and> owner s' = D_destroyed
    \<and> set (enqueued (trace s)) \<subseteq> set (executed (trace s'))
    \<and> (\<forall>t\<in>set (enqueued (trace s)). future_get (state_id t) s' = Some (invoke (callable t)))"
proof -
  from teardown_completes[OF good_reachable[OF assms(1)]]
  obtain s' where s': "reaches s s'" "owner s' = D_destroyed" by blast
  then obtain bs where bs: "exec bs s = Some s'" unfolding reaches_def by blast
  have "exec (as @ bs) (ThreadPool n) = Some s'" using assms(1) bs by (simp add: exec_append)
  note r = reachableD[OF this]
  have ne: "workers s' \<noteq> []" using r(11) assms(2) by auto
  have "workers s' ! i = W_exited" if "i < length (workers s')" for i
    using joined_all_exited[OF r(1) _ that] s'(2) by simp
  from all_exited_drained(3)[OF r(1,2,4,9) ne this] enqueued_grows[OF s'(1)]
  have sub: "set (enqueued (trace s)) \<subseteq> set (executed (trace s'))" by blast
  have "future_get (state_id t) s' = Some (invoke (callable t))"
    if "t \<in> set (enqueued (trace s))" for t
  proof -
    have "t \<in> set (executed (trace s'))" using sub that by blast
    from inv_futuresD(4)[OF r(5) this] show ?thesis by (simp add: future_get_def)
  qed
  then show ?thesis using bs s'(2) sub by blast
qed

subsection \<open>Calls in flight\<close>

lemma inv_returned_step:
  assumes "inv_returned s" "step a s = Some s'"
  shows "inv_returned s'"
proof -
  have H: "h \<in> state_id ` set (enqueued (trace s))"
    if "callers s c = S_notify h \<or> callers s c = S_returned h" for c h
    using assms(1) that unfolding inv_returned_def by blast
  have "h \<in> state_id ` set (enqueued (trace s'))"
    if *: "callers s' c = S_notify h \<or> callers s' c = S_returned h" for c h
    using assms(2)
  proof (cases rule: step_cases)
    case (make c' f)
    then have "callers s c = S_notify h \<or> callers s c = S_returned h"
      using * by (cases "c = c'") simp_all
    from H[OF this] show ?thesis using make by simp
  next
    case (s_lock c' k t)
    then have "callers s c = S_notify h \<or> callers s c = S_returned h"
      using * by (cases "c = c'") simp_all
    from H[OF this] show ?thesis using s_lock by simp
  next
    case (throw c' k t)
    then have "callers s c = S_notify h \<or> callers s c = S_returned h"
      using * by (cases "c = c'") simp_all
    from H[OF this] show ?thesis using throw by simp
  next
    case (emplace c' k t)
    show ?thesis
    proof (cases "c = c'")
      case True
      then show ?thesis using * emplace by simp
    next
      case False
      then have "callers s c = S_notify h \<or> callers s c = S_returned h"
        using * emplace by simp
      from H[OF this] show ?thesis using emplace by simp
    qed
  next
    case (notify c' k h')
    show ?thesis
    proof (cases "c = c'")
      case True
      then have "h = h'" using * notify by simp
      then show ?thesis using H[of c' h'] notify by simp
    next
      case False
      then have "callers s c = S_notify h \<or> callers s c = S_returned h"
        using * notify by simp
      from H[OF this] show ?thesis using notify by simp
    qed
  qed (use * H[of c h] in simp_all)
  then show ?thesis unfolding inv_returned_def by blast
qed

lemma inv_returned_reachable:
  assumes "exec as (ThreadPool n) = Some s"
  shows "inv_returned s"
proof (rule exec_invariant[of inv_returned, OF _ _ assms])
  show "inv_returned (ThreadPool n)" by (simp add: inv_returned_def ThreadPool_def)
qed (rule inv_returned_step)

subsection \<open>A call that began after the flag was set\<close>

lemma rejecting_step:
  assumes "inv s" "rejecting h s" "step a s = Some s'"
  shows "rejecting h s'"
proof -
  have q: "inv_queue s" and e: "inv_exec s" using assms(1) unfolding inv_def by blast+
  note p = parts_of_enqueued[OF q]
  have g: "stop s" "h < next_state s" "future_get h s = None"
    "h \<notin> state_id ` set (enqueued (trace s))"
    using assms(2) unfolding rejecting_def by blast+
  have ne: "state_id t \<noteq> h" if "t \<in> set (enqueued (trace s))" for t
    using g(4) that by blast
  show ?thesis using assms(3)
  proof (cases rule: step_cases)
    case (run i t)
    have "t \<in> set (enqueued (trace s))" using inv_execD(4)[OF e run(2,3)] p(1) by auto
    then show ?thesis using ne[of t] g run(5) by (simp add: rejecting_def future_get_def)
  next
    case (members j)
    have "h \<notin> state_id ` set (tasks s)" using g(4) p(2) by blast
    then have "destroy_tasks (tasks s) (futures s) h = futures s h"
      by (simp add: destroy_tasks_apply)
    then show ?thesis using g members(4) by (simp add: rejecting_def future_get_def)
  next
    case (emplace c k t)
    then show ?thesis using g(1) by simp
  next
    case (make c f)
    then show ?thesis using g by (simp add: rejecting_def future_get_def)
  next
    case (throw c k t)
    then show ?thesis using g by (simp add: rejecting_def future_get_def)
  qed (use g in \<open>auto simp: rejecting_def future_get_def\<close>)
qed

lemma rejecting_exec:
  assumes "inv s" "rejecting h s" "exec bs s = Some s'"
  shows "rejecting h s'"
proof -
  have "inv s' \<and> rejecting h s'"
    by (rule exec_invariant[of "\<lambda>s. inv s \<and> rejecting h s", OF _ _ assms(3)])
      (use assms(1,2) inv_step rejecting_step in blast)+
  then show ?thesis by blast
qed

text \<open>
  The thread of a call that began after the flag was set is before the lock, in the
  locked block, or has thrown, for as long as it does not begin another call.
\<close>

lemma rejected_call_step:
  assumes "stop s"
    "callers s c = S_lock t \<or> callers s c = S_locked t \<or> callers s c = S_thrown PoolShutdown"
    "step a s = Some s'" "\<forall>g. a \<noteq> Submit c g"
  shows "stop s' \<and> (callers s' c = S_lock t \<or> callers s' c = S_locked t
      \<or> callers s' c = S_thrown PoolShutdown)"
  using assms(3)
proof (cases rule: step_cases)
  case (make c' f)
  then have "c' \<noteq> c" using assms(4) by blast
  then show ?thesis using make assms(1,2) by simp
next
  case (s_lock c' k t')
  then show ?thesis using assms(1,2) by (cases "c' = c") auto
next
  case (throw c' k t')
  then show ?thesis using assms(1,2) by (cases "c' = c") auto
next
  case (emplace c' k t')
  then show ?thesis using assms(1) by simp
next
  case (notify c' k h)
  then show ?thesis using assms(1,2) by (cases "c' = c") auto
qed (use assms(1,2) in simp_all)

lemma rejected_call_exec:
  assumes "exec bs s = Some s'" "stop s"
    "callers s c = S_lock t \<or> callers s c = S_locked t \<or> callers s c = S_thrown PoolShutdown"
    "\<forall>g. Submit c g \<notin> set bs"
  shows "stop s' \<and> (callers s' c = S_lock t \<or> callers s' c = S_locked t
      \<or> callers s' c = S_thrown PoolShutdown)"
  using assms
proof (induction bs arbitrary: s)
  case Nil
  then show ?case by simp
next
  case (Cons a bs)
  from Cons.prems(1) obtain s1 where s1: "step a s = Some s1" "exec bs s1 = Some s'"
    by (auto split: option.splits)
  have "\<forall>g. a \<noteq> Submit c g" using Cons.prems(4) by auto
  from rejected_call_step[OF Cons.prems(2,3) s1(1) this]
  have "stop s1" "callers s1 c = S_lock t \<or> callers s1 c = S_locked t
      \<or> callers s1 c = S_thrown PoolShutdown" by blast+
  moreover have "\<forall>g. Submit c g \<notin> set bs" using Cons.prems(4) by auto
  ultimately show ?case using Cons.IH[OF s1(2)] by blast
qed


lemma rejection_completes:
  assumes "good s" "stop s" "owner s \<noteq> D_destroyed"
    "callers s c = S_lock t \<or> callers s c = S_locked t \<or> callers s c = S_thrown PoolShutdown"
  shows "\<exists>s'. reaches s s' \<and> callers s' c = S_thrown PoolShutdown"
proof -
  have locked: "\<exists>s'. reaches s1 s' \<and> callers s' c = S_thrown PoolShutdown"
    if "stop s1" "owner s1 \<noteq> D_destroyed" "callers s1 c = S_locked t"
    for s1 :: "('a, 'b) sys"
  proof -
    from locked_block_throws[OF that, of 0] obtain s' where
      "submit_step c 0 s1 = Some s'" "callers s' c = S_thrown PoolShutdown" by blast
    then have "step (In_submit c 0) s1 = Some s'" by simp
    from reaches_step[OF this] \<open>callers s' c = S_thrown PoolShutdown\<close> show ?thesis by blast
  qed
  from assms(4) show ?thesis
  proof (elim disjE)
    assume "callers s c = S_thrown PoolShutdown"
    then show ?thesis using reaches_refl[of s] by blast
  next
    assume "callers s c = S_locked t"
    then show ?thesis by (rule locked[OF assms(2,3)])
  next
    assume l: "callers s c = S_lock t"
    have "owner s \<noteq> D_locked" using goodD(2)[OF assms(1)] assms(2) by (auto simp: inv_stop_def)
    from release[OF assms(1) this assms(3)] obtain s1 where s1: "reaches s s1"
      "queue_mutex s1 = None" "owner s1 = owner s" "stop s1 = stop s"
      "\<forall>c. (\<forall>t. callers s c \<noteq> S_locked t) \<longrightarrow> callers s1 c = callers s c" by blast
    have c1: "callers s1 c = S_lock t" using s1(5) l by simp
    let ?s2 = "s1\<lparr>queue_mutex := Some (Caller c), callers := (callers s1)(c := S_locked t)\<rparr>"
    have "step (In_submit c 0) s1 = Some ?s2"
      using c1 s1(2,3) assms(3) by (simp add: submit_step_def)
    then have r: "reaches s ?s2" using reaches_trans[OF s1(1)] reaches_step by blast
    have "stop ?s2" "owner ?s2 \<noteq> D_destroyed" "callers ?s2 c = S_locked t"
      using s1(3,4) assms(2,3) by simp_all
    from locked[OF this] show ?thesis using reaches_trans[OF r] by blast
  qed
qed

subsection \<open>The effect of one notification\<close>





subsection \<open>The join loop\<close>

lemma count_list_snoc: "count_list (xs @ [y]) x = count_list xs x + (if x = y then 1 else 0)"
  by (induction xs) auto

lemma inv_joined_step:
  assumes "inv_joining s" "inv_joined s" "step a s = Some s'"
  shows "inv_joined s'"
proof -
  have H: "count_list (trace s) (Joined i)
      = (if i < joined_upto (owner s) (length (workers s)) then 1 else 0)" for i
    using assms(2) unfolding inv_joined_def by blast
  note len = length_workers_step[OF assms(3)]
  have "count_list (trace s') (Joined i)
      = (if i < joined_upto (owner s') (length (workers s')) then 1 else 0)" for i
    using assms(3)
  proof (cases rule: step_cases)
    case (join j)
    then show ?thesis using H[of i] len
      by (auto simp: joined_upto_def count_list_snoc)
  next
    case (members j)
    have "j \<le> length (workers s)" using assms(1) members(2) unfolding inv_joining_def by blast
    then have j: "j = length (workers s)" using members(3) by simp
    have "count_list (map Abandoned (tasks s)) (Joined i) = 0"
      by (rule count_list_Abandoned) simp_all
    then show ?thesis using members(2,4) H[of i] j by (simp add: joined_upto_def)
  next
    case broadcast
    then show ?thesis using H[of i] by (simp add: joined_upto_def count_list_snoc)
  qed (use H[of i] in \<open>auto simp: joined_upto_def count_list_snoc\<close>)
  then show ?thesis unfolding inv_joined_def by blast
qed

lemma inv_joined_reachable:
  assumes "exec as (ThreadPool n) = Some s"
  shows "inv_joined s"
proof -
  have "inv_joining s \<and> inv_joined s"
  proof (rule exec_invariant[of "\<lambda>s. inv_joining s \<and> inv_joined s", OF _ _ assms])
    show "inv_joining (ThreadPool n) \<and> inv_joined (ThreadPool n)"
      by (simp add: inv_joining_def inv_joined_def joined_upto_def ThreadPool_def)
  qed (use inv_joining_step inv_joined_step in blast)
  then show ?thesis by blast
qed

lemma teardown_ends:
  assumes "exec as (ThreadPool n) = Some s"
  shows "\<exists>bs s'. exec bs s = Some s' \<and> owner s' = D_destroyed \<and> stop s' \<and> tasks s' = []
    \<and> count_list (trace s') Stop_set = 1 \<and> count_list (trace s') Notify_all = 1
    \<and> (\<forall>i<n. count_list (trace s') (Joined i) = 1 \<and> workers s' ! i = W_exited)"
proof -
  from teardown_completes[OF good_reachable[OF assms]]
  obtain s' where s': "reaches s s'" "owner s' = D_destroyed" by blast
  then obtain bs where bs: "exec bs s = Some s'" unfolding reaches_def by blast
  have e: "exec (as @ bs) (ThreadPool n) = Some s'" using assms bs by (simp add: exec_append)
  note r = reachableD[OF e]
  have st: "stop s'" using r(1) s'(2) unfolding inv_ctl_def inv_stop_def by simp
  have t: "tasks s' = []" using inv_joining_reachable[OF e] s'(2) unfolding inv_joining_def by blast
  have pb: "past_broadcast (owner s')" using s'(2) by (simp add: past_broadcast_def)
  have c1: "count_list (trace s') Stop_set = 1" using r(10) st unfolding inv_signals_def by simp
  have c2: "count_list (trace s') Notify_all = 1" using r(10) pb unfolding inv_signals_def by simp
  have j: "count_list (trace s') (Joined i) = 1 \<and> workers s' ! i = W_exited" if "i < n" for i
  proof -
    have "count_list (trace s') (Joined i) = 1"
      using inv_joined_reachable[OF e] s'(2) r(11) that
      unfolding inv_joined_def by (simp add: joined_upto_def)
    moreover have "workers s' ! i = W_exited"
      using joined_all_exited[OF r(1), of i] s'(2) r(11) that by simp
    ultimately show ?thesis by blast
  qed
  show ?thesis using bs s'(2) st t c1 c2 j by blast
qed

section \<open>Construction\<close>

text \<open>
  C2 as stated fails: \<^verbatim>\<open>ThreadPool(0)\<close> is not rejected. The constructed object has
  no workers and is usable: a \<^verbatim>\<open>submit\<close> on it returns a future and leaves the task in
  the queue.
\<close>

theorem ThreadPool_zero_not_rejected:
  "workers (ThreadPool 0 :: (unit, int) sys) = []
   \<and> Option.bind (submit 0 (returning 7) (ThreadPool 0 :: (unit, int) sys)) (call_result 0)
       = Some (Inr 0)
   \<and> map_option tasks (submit 0 (returning 7) (ThreadPool 0 :: (unit, int) sys))
       = Some [Packaged_task (returning 7) 0]"
  by (simp add: ThreadPool_def submit_def submit_begin_def submit_step_def in_call_def
      call_result_def notify_one_def)

text \<open>
  C2, as the code has it: the constructor has no check of \<open>num_threads\<close>, and for
  \<open>num_threads = 0\<close> its loop starts no thread. What it leaves is a pool object with no
  workers that can be used like any other. In every state such a pool can get into: it
  has no workers; while \<open>stop\<close> is clear, a call of \<^verbatim>\<open>submit\<close> that finds the mutex free
  is accepted, returns a future and appends the task to the queue; once \<open>stop\<close> is set a
  call is rejected with \<^verbatim>\<open>PoolShutdown\<close>; and the destructor can always run to its
  end, where the flag is set and the queue is gone.
\<close>

theorem zero_worker_pool_is_usable:
  fixes s :: "('e, 'r) sys"
  assumes "exec as (ThreadPool 0) = Some s"
  shows "workers s = []
    \<and> exec [] (ThreadPool 0 :: ('e, 'r) sys) = Some (ThreadPool 0)
    \<and> owner (ThreadPool 0 :: ('e, 'r) sys) = D_alive
    \<and> \<not> stop (ThreadPool 0 :: ('e, 'r) sys)
    \<and> queue_mutex (ThreadPool 0 :: ('e, 'r) sys) = None
    \<and> tasks (ThreadPool 0 :: ('e, 'r) sys) = []
    \<and> (\<not> stop s \<longrightarrow> \<not> in_call (callers s c) \<longrightarrow> queue_mutex s = None \<longrightarrow>
          (\<exists>s'. submit c f s = Some s'
             \<and> call_result c s' = Some (Inr (next_state s))
             \<and> tasks s' = tasks s @ [Packaged_task f (next_state s)]
             \<and> future_get (next_state s) s' = None))
    \<and> (stop s \<longrightarrow> \<not> in_call (callers s c) \<longrightarrow> queue_mutex s = None
          \<longrightarrow> owner s \<noteq> D_destroyed \<longrightarrow>
          (\<exists>s'. submit c f s = Some s'
             \<and> call_result c s' = Some (Inl PoolShutdown) \<and> tasks s' = tasks s))
    \<and> (\<exists>bs s'. exec bs s = Some s' \<and> owner s' = D_destroyed \<and> stop s' \<and> tasks s' = []
          \<and> workers s' = [])"
proof -
  note r = reachableD[OF assms]
  have 1: "workers s = []" using r(11) by simp
  have 2: "exec [] (ThreadPool 0 :: ('e, 'r) sys) = Some (ThreadPool 0)" by simp
  have 3: "owner (ThreadPool 0 :: ('e, 'r) sys) = D_alive"
    "\<not> stop (ThreadPool 0 :: ('e, 'r) sys)"
    "queue_mutex (ThreadPool 0 :: ('e, 'r) sys) = None"
    "tasks (ThreadPool 0 :: ('e, 'r) sys) = []"
    by (simp_all add: ThreadPool_def)
  have 4: "\<not> stop s \<longrightarrow> \<not> in_call (callers s c) \<longrightarrow> queue_mutex s = None \<longrightarrow>
          (\<exists>s'. submit c f s = Some s'
             \<and> call_result c s' = Some (Inr (next_state s))
             \<and> tasks s' = tasks s @ [Packaged_task f (next_state s)]
             \<and> future_get (next_state s) s' = None)"
  proof (intro impI)
    assume a: "\<not> stop s" "\<not> in_call (callers s c)" "queue_mutex s = None"
    have alive: "owner s \<noteq> D_destroyed"
      using r(1) a(1) unfolding inv_ctl_def inv_stop_def by auto
    show "\<exists>s'. submit c f s = Some s'
             \<and> call_result c s' = Some (Inr (next_state s))
             \<and> tasks s' = tasks s @ [Packaged_task f (next_state s)]
             \<and> future_get (next_state s) s' = None"
      unfolding submit_accepted[OF a alive] by (simp add: call_result_def future_get_def)
  qed
  have 5: "stop s \<longrightarrow> \<not> in_call (callers s c) \<longrightarrow> queue_mutex s = None
          \<longrightarrow> owner s \<noteq> D_destroyed \<longrightarrow>
          (\<exists>s'. submit c f s = Some s'
             \<and> call_result c s' = Some (Inl PoolShutdown) \<and> tasks s' = tasks s)"
  proof (intro impI)
    assume a: "stop s" "\<not> in_call (callers s c)" "queue_mutex s = None" "owner s \<noteq> D_destroyed"
    show "\<exists>s'. submit c f s = Some s'
             \<and> call_result c s' = Some (Inl PoolShutdown) \<and> tasks s' = tasks s"
      unfolding submit_rejected[OF a] by (simp add: call_result_def)
  qed
  have 6: "\<exists>bs s'. exec bs s = Some s' \<and> owner s' = D_destroyed \<and> stop s' \<and> tasks s' = []
          \<and> workers s' = []"
  proof -
    from teardown_ends[OF assms] obtain bs s' where b: "exec bs s = Some s'"
      "owner s' = D_destroyed" "stop s'" "tasks s' = []" by blast
    have "exec (as @ bs) (ThreadPool 0) = Some s'" using assms b(1) by (simp add: exec_append)
    from length_workers_reachable[OF this] have "workers s' = []" by simp
    with b show ?thesis by blast
  qed
  from 1 2 3 4 5 6 show ?thesis by (intro conjI)
qed

theorem zero_worker_pool_is_usable_witness:
  "\<exists>s s'. exec [] (ThreadPool 0 :: (unit, int) sys) = Some s
     \<and> workers s = [] \<and> \<not> stop s \<and> owner s = D_alive
     \<and> submit 0 (returning 7) s = Some s'
     \<and> call_result 0 s' = Some (Inr 0)
     \<and> tasks s' = [Packaged_task (returning 7) 0]
     \<and> (\<exists>bs s2. exec bs s = Some s2 \<and> owner s2 = D_destroyed \<and> stop s2)"
proof -
  let ?s = "ThreadPool 0 :: (unit, int) sys"
  have e: "exec [] ?s = Some ?s" by simp
  have v: "\<not> stop ?s" "\<not> in_call (callers ?s 0)" "queue_mutex ?s = None" "owner ?s = D_alive"
    "next_state ?s = 0" "tasks ?s = []"
    by (simp_all add: ThreadPool_def in_call_def)
  note T = zero_worker_pool_is_usable[OF e, of 0 "returning 7"]
  have a: "workers ?s = []" using T[THEN conjunct1] .
  from T[THEN conjunct2, THEN conjunct2, THEN conjunct2, THEN conjunct2, THEN conjunct2,
      THEN conjunct2, THEN conjunct1] v(1,2,3)
  obtain s' where s': "submit 0 (returning 7) ?s = Some s'"
    "call_result 0 s' = Some (Inr (next_state ?s))"
    "tasks s' = tasks ?s @ [Packaged_task (returning 7) (next_state ?s)]" by blast
  have b: "call_result 0 s' = Some (Inr 0)" "tasks s' = [Packaged_task (returning 7) 0]"
    using s'(2,3) unfolding v(5,6) by simp_all
  from T[THEN conjunct2, THEN conjunct2, THEN conjunct2, THEN conjunct2, THEN conjunct2,
      THEN conjunct2, THEN conjunct2, THEN conjunct2]
  have c: "\<exists>bs s2. exec bs ?s = Some s2 \<and> owner s2 = D_destroyed \<and> stop s2" by blast
  from e a v(1,4) s'(1) b c show ?thesis by (intro exI[of _ ?s] exI[of _ s'] conjI)
qed

section \<open>Draining the queue on shutdown\<close>

text \<open>
  C3, for a pool that has at least one worker: a worker leaves its loop only from the
  locked block, with \<open>stop\<close> set and the queue empty; once the destructor has joined
  every worker (and after the pool is destroyed) the queue is empty, no task was destroyed
  unrun, and every task that was accepted into the queue has been invoked; and from
  every reachable state the teardown can be run to its end, where all the tasks accepted
  so far have been invoked.
\<close>

theorem accepted_tasks_run_before_teardown_ends:
  assumes "exec as (ThreadPool n) = Some s" "0 < n"
  shows "(\<forall>a s' i. step a s = Some s' \<longrightarrow> i < n \<longrightarrow> workers s ! i \<noteq> W_exited
            \<longrightarrow> workers s' ! i = W_exited \<longrightarrow> a = Work i \<and> stop s \<and> tasks s = [])
    \<and> (owner s = D_join n \<or> owner s = D_destroyed \<longrightarrow>
          tasks s = [] \<and> set (enqueued (trace s)) \<subseteq> set (executed (trace s)))
    \<and> abandoned (trace s) = []
    \<and> (\<exists>bs s'. exec bs s = Some s' \<and> owner s' = D_destroyed
          \<and> set (enqueued (trace s)) \<subseteq> set (executed (trace s')))"
proof -
  note r = reachableD[OF assms(1)]
  have ne: "workers s \<noteq> []" using r(11) assms(2) by auto
  have 1: "a = Work i \<and> stop s \<and> tasks s = []"
    if "step a s = Some s'" "i < n" "workers s ! i \<noteq> W_exited" "workers s' ! i = W_exited"
    for a s' i
    using only_exit_exits[OF that(1) _ that(3,4)] that(2) r(11) by simp
  have 2: "tasks s = [] \<and> set (enqueued (trace s)) \<subseteq> set (executed (trace s))"
    if "owner s = D_join n \<or> owner s = D_destroyed"
  proof -
    have "workers s ! i = W_exited" if "i < length (workers s)" for i
      using joined_all_exited[OF r(1) _ that] \<open>owner s = D_join n \<or> owner s = D_destroyed\<close> r(11)
      by simp
    from all_exited_drained(1,3)[OF r(1,2,4,9) ne this] show ?thesis by simp
  qed
  have 3: "abandoned (trace s) = []" using r(9) ne by (simp add: inv_drained_def)
  have 4: "\<exists>bs s'. exec bs s = Some s' \<and> owner s' = D_destroyed
          \<and> set (enqueued (trace s)) \<subseteq> set (executed (trace s'))"
    using eventually_all_executed[OF assms] by blast
  have "\<forall>a s' i. step a s = Some s' \<longrightarrow> i < n \<longrightarrow> workers s ! i \<noteq> W_exited
            \<longrightarrow> workers s' ! i = W_exited \<longrightarrow> a = Work i \<and> stop s \<and> tasks s = []"
    using 1 by blast
  moreover have "owner s = D_join n \<or> owner s = D_destroyed \<longrightarrow>
          tasks s = [] \<and> set (enqueued (trace s)) \<subseteq> set (executed (trace s))"
    using 2 by blast
  ultimately show ?thesis using 3 4 by (intro conjI)
qed


theorem accepted_tasks_run_before_teardown_ends_witness:
  "(0::nat) < 1
   \<and> (\<exists>s. exec (call 0 (returning 7) @ serve 0 @ [Destroy, Destroy, Destroy] @ leave 0
                @ [Destroy, Destroy]) (ThreadPool 1 :: (unit, int) sys) = Some s
        \<and> owner s = D_destroyed
        \<and> tasks s = []
        \<and> enqueued (trace s) = [Packaged_task (returning 7) 0]
        \<and> set (enqueued (trace s)) \<subseteq> set (executed (trace s))
        \<and> abandoned (trace s) = [])"
proof -
  let ?as = "call 0 (returning 7) @ serve 0 @ [Destroy, Destroy, Destroy] @ leave 0
                @ [Destroy, Destroy] :: (unit, int) action list"
  have "\<exists>s. exec ?as (ThreadPool 1) = Some s \<and> owner s = D_destroyed
      \<and> enqueued (trace s) = [Packaged_task (returning 7) 0]"
    by (simp add: run_defs)
  then obtain s where s: "exec ?as (ThreadPool 1) = Some s" "owner s = D_destroyed"
    "enqueued (trace s) = [Packaged_task (returning 7) 0]" by blast
  have n: "(0::nat) < 1" by simp
  note z = accepted_tasks_run_before_teardown_ends[OF s(1) n]
  have "owner s = D_join 1 \<or> owner s = D_destroyed \<longrightarrow>
          tasks s = [] \<and> set (enqueued (trace s)) \<subseteq> set (executed (trace s))"
    using z by blast
  then have 1: "tasks s = []" "set (enqueued (trace s)) \<subseteq> set (executed (trace s))"
    using s(2) by blast+
  have 2: "abandoned (trace s) = []" using z by blast
  from n s 1 2 show ?thesis by blast
qed

text \<open>
  C3 as stated fails for a pool without workers: the call is accepted, the destructor has
  nobody to join, and the queued task is destroyed without ever having been invoked.
\<close>

theorem zero_workers_discard_queue:
  "map_option owner (exec (call 0 (returning 7) @ [Destroy, Destroy, Destroy, Destroy])
      (ThreadPool 0 :: (unit, int) sys)) = Some D_destroyed
   \<and> map_option (enqueued \<circ> trace) (exec (call 0 (returning 7) @ [Destroy, Destroy, Destroy, Destroy])
      (ThreadPool 0 :: (unit, int) sys)) = Some [Packaged_task (returning 7) 0]
   \<and> map_option (executed \<circ> trace) (exec (call 0 (returning 7) @ [Destroy, Destroy, Destroy, Destroy])
      (ThreadPool 0 :: (unit, int) sys)) = Some []
   \<and> map_option (abandoned \<circ> trace) (exec (call 0 (returning 7) @ [Destroy, Destroy, Destroy, Destroy])
      (ThreadPool 0 :: (unit, int) sys)) = Some [Packaged_task (returning 7) 0]"
  by (simp add: run_defs)

section \<open>Order of service\<close>

text \<open>
  C4: in every reachable state the sequence of tasks taken from the queue is an initial
  segment of the sequence of tasks appended to it (FIFO); with a single worker the
  sequence of tasks invoked is such an initial segment as well, so a task submitted
  earlier starts earlier. With two workers nothing of that kind holds for the
  invocations: in the run below the task submitted second is invoked first.
\<close>

theorem fifo_dequeue:
  assumes "exec as (ThreadPool n) = Some s"
  shows "prefix (dequeued (trace s)) (enqueued (trace s))
    \<and> (n = 1 \<longrightarrow> prefix (executed (trace s)) (enqueued (trace s)))
    \<and> map_option (enqueued \<circ> trace)
          (exec (call 0 (returning 1) @ call 0 (returning 2) @ [Work 0, Work 0, Work 0]
                 @ serve 1 @ [Work 0]) (ThreadPool 2 :: (unit, int) sys))
        = Some [Packaged_task (returning 1) 0, Packaged_task (returning 2) 1]
    \<and> map_option (dequeued \<circ> trace)
          (exec (call 0 (returning 1) @ call 0 (returning 2) @ [Work 0, Work 0, Work 0]
                 @ serve 1 @ [Work 0]) (ThreadPool 2 :: (unit, int) sys))
        = Some [Packaged_task (returning 1) 0, Packaged_task (returning 2) 1]
    \<and> map_option (executed \<circ> trace)
          (exec (call 0 (returning 1) @ call 0 (returning 2) @ [Work 0, Work 0, Work 0]
                 @ serve 1 @ [Work 0]) (ThreadPool 2 :: (unit, int) sys))
        = Some [Packaged_task (returning 2) 1, Packaged_task (returning 1) 0]"
proof -
  note r = reachableD[OF assms]
  have 1: "prefix (dequeued (trace s)) (enqueued (trace s))" by (rule dequeued_prefix[OF r(2)])
  have 2: "prefix (executed (trace s)) (enqueued (trace s))" if "n = 1"
    using executed_prefix_single[OF r(7)] r(11) that 1 by (auto intro: prefix_order.trans)
  have 3: "map_option (enqueued \<circ> trace)
          (exec (call 0 (returning 1) @ call 0 (returning 2) @ [Work 0, Work 0, Work 0]
                 @ serve 1 @ [Work 0]) (ThreadPool 2 :: (unit, int) sys))
        = Some [Packaged_task (returning 1) 0, Packaged_task (returning 2) 1]"
    by (simp add: run_defs numeral_2_eq_2)
  have 4: "map_option (dequeued \<circ> trace)
          (exec (call 0 (returning 1) @ call 0 (returning 2) @ [Work 0, Work 0, Work 0]
                 @ serve 1 @ [Work 0]) (ThreadPool 2 :: (unit, int) sys))
        = Some [Packaged_task (returning 1) 0, Packaged_task (returning 2) 1]"
    by (simp add: run_defs numeral_2_eq_2)
  have 5: "map_option (executed \<circ> trace)
          (exec (call 0 (returning 1) @ call 0 (returning 2) @ [Work 0, Work 0, Work 0]
                 @ serve 1 @ [Work 0]) (ThreadPool 2 :: (unit, int) sys))
        = Some [Packaged_task (returning 2) 1, Packaged_task (returning 1) 0]"
    by (simp add: run_defs numeral_2_eq_2)
  show ?thesis using 1 2 3 4 5 by blast
qed

theorem fifo_dequeue_witness:
  "\<exists>s. exec (call 0 (returning 1) @ call 0 (returning 2) @ serve 0 @ [Work 0, Work 0, Work 0])
          (ThreadPool 1 :: (unit, int) sys) = Some s
     \<and> enqueued (trace s) = [Packaged_task (returning 1) 0, Packaged_task (returning 2) 1]
     \<and> executed (trace s) = [Packaged_task (returning 1) 0]
     \<and> prefix (dequeued (trace s)) (enqueued (trace s))
     \<and> prefix (executed (trace s)) (enqueued (trace s))"
proof -
  let ?as = "call 0 (returning 1) @ call 0 (returning 2) @ serve 0 @ [Work 0, Work 0, Work 0]
      :: (unit, int) action list"
  have "\<exists>s. exec ?as (ThreadPool 1) = Some s
      \<and> enqueued (trace s) = [Packaged_task (returning 1) 0, Packaged_task (returning 2) 1]
      \<and> executed (trace s) = [Packaged_task (returning 1) 0]"
    by (simp add: run_defs)
  then obtain s where s: "exec ?as (ThreadPool 1) = Some s"
    "enqueued (trace s) = [Packaged_task (returning 1) 0, Packaged_task (returning 2) 1]"
    "executed (trace s) = [Packaged_task (returning 1) 0]" by blast
  from fifo_dequeue[OF s(1)] have "prefix (dequeued (trace s)) (enqueued (trace s))"
    "prefix (executed (trace s)) (enqueued (trace s))" by simp_all
  with s show ?thesis by blast
qed


section \<open>Exactly once\<close>



section \<open>Reading a result\<close>

text \<open>
  C7, for a pool that has at least one worker, or any pool that has not been destroyed:
  for every task accepted by \<^verbatim>\<open>submit\<close>, \<^verbatim>\<open>get\<close> on its future blocks exactly as long
  as the task has not been invoked, and from then on yields what the invocation recorded:
  the value the callable returned, or the exception it threw. With at least one worker
  the pool can always run on to a state in which \<^verbatim>\<open>get\<close> yields that outcome.
\<close>

theorem get_blocks_until_executed:
  assumes "exec as (ThreadPool n) = Some s" "t \<in> set (enqueued (trace s))"
    "0 < n \<or> owner s \<noteq> D_destroyed"
  shows "future_get (state_id t) s =
      (if t \<in> set (executed (trace s))
       then Some (case callable t () of Inl e \<Rightarrow> Inl (Thrown e) | Inr v \<Rightarrow> Inr v)
       else None)
    \<and> (0 < n \<longrightarrow> (\<exists>bs s'. exec bs s = Some s' \<and> future_get (state_id t) s' =
          Some (case callable t () of Inl e \<Rightarrow> Inl (Thrown e) | Inr v \<Rightarrow> Inr v)))"
proof -
  note r = reachableD[OF assms(1)]
  note f = inv_futuresD[OF r(5)]
  have ab: "abandoned (trace s) = []"
    using assms(3) r(9,11) inv_queueD(4)[OF r(2)] by (auto simp: inv_drained_def)
  have later: "\<exists>bs s'. exec bs s = Some s' \<and> future_get (state_id t) s' =
          Some (case callable t () of Inl e \<Rightarrow> Inl (Thrown e) | Inr v \<Rightarrow> Inr v)"
    if "0 < n"
  proof -
    from eventually_all_executed[OF assms(1) that] obtain bs s' where
      "exec bs s = Some s'"
      "\<forall>u\<in>set (enqueued (trace s)). future_get (state_id u) s' = Some (invoke (callable u))"
      by blast
    then have "exec bs s = Some s'" "future_get (state_id t) s' = Some (invoke (callable t))"
      using assms(2) by blast+
    then show ?thesis unfolding invoke_def by blast
  qed
  have "future_get (state_id t) s =
      (if t \<in> set (executed (trace s))
       then Some (case callable t () of Inl e \<Rightarrow> Inl (Thrown e) | Inr v \<Rightarrow> Inr v)
       else None)"
  proof (cases "t \<in> set (executed (trace s))")
    case True
    then show ?thesis using f(4)[OF True] by (simp add: future_get_def invoke_def)
  next
    case False
    have "t \<in> set (dequeued (trace s)) \<or> t \<in> set (tasks s)"
      using assms(2) ab unfolding inv_queueD(1)[OF r(2)] by simp
    then have "futures s (state_id t) = Some Pending"
    proof
      assume "t \<in> set (dequeued (trace s))"
      from inv_execD(3)[OF r(4) this] False
      obtain i where "i < length (workers s)" "workers s ! i = W_run t" by blast
      then show ?thesis by (rule f(2))
    next
      assume "t \<in> set (tasks s)"
      then show ?thesis by (rule f(1))
    qed
    then show ?thesis using False by (simp add: future_get_def)
  qed
  then show ?thesis using later by blast
qed

theorem get_blocks_until_executed_witness:
  "\<exists>s. exec (call 0 (throwing ''boom'') @ call 0 (returning 2) @ serve 0)
          (ThreadPool 1 :: (string, int) sys) = Some s
     \<and> enqueued (trace s) = [Packaged_task (throwing ''boom'') 0, Packaged_task (returning 2) 1]
     \<and> executed (trace s) = [Packaged_task (throwing ''boom'') 0]
     \<and> future_get 0 s = Some (Inl (Thrown ''boom''))
     \<and> future_get 1 s = None"
proof -
  let ?as = "call 0 (throwing ''boom'') @ call 0 (returning 2) @ serve 0
      :: (string, int) action list"
  have "\<exists>s. exec ?as (ThreadPool 1) = Some s
      \<and> enqueued (trace s) = [Packaged_task (throwing ''boom'') 0, Packaged_task (returning 2) 1]
      \<and> executed (trace s) = [Packaged_task (throwing ''boom'') 0]"
    by (simp add: run_defs)
  then obtain s where s: "exec ?as (ThreadPool 1) = Some s"
    "enqueued (trace s) = [Packaged_task (throwing ''boom'') 0, Packaged_task (returning 2) 1]"
    "executed (trace s) = [Packaged_task (throwing ''boom'') 0]" by blast
  have n: "0 < (1::nat) \<or> owner s \<noteq> D_destroyed" by simp
  have a: "Packaged_task (throwing ''boom'') 0 \<in> set (enqueued (trace s))"
    and b: "Packaged_task (returning 2) 1 \<in> set (enqueued (trace s))"
    using s(2) by simp_all
  note za = conjunct1[OF get_blocks_until_executed[OF s(1) a n]]
  note zb = conjunct1[OF get_blocks_until_executed[OF s(1) b n]]
  have "future_get 0 s = Some (Inl (Thrown ''boom''))"
    using za s(3) by (simp add: throwing_def)
  moreover have "future_get 1 s = None"
    using zb s(3) by simp
  ultimately show ?thesis using s by blast
qed

text \<open>
  C7 as stated fails for a pool without workers that is destroyed with the task still
  queued: \<^verbatim>\<open>get\<close> then does not block although the task was never invoked, and what it
  yields is \<^verbatim>\<open>broken_promise\<close>, not an outcome of the task.
\<close>

theorem get_after_abandonment:
  "Option.bind (exec (call 0 (returning 7) @ [Destroy, Destroy, Destroy, Destroy])
      (ThreadPool 0 :: (unit, int) sys)) (future_get 0) = Some (Inl Broken_promise)
   \<and> map_option (executed \<circ> trace) (exec (call 0 (returning 7) @ [Destroy, Destroy, Destroy, Destroy])
      (ThreadPool 0 :: (unit, int) sys)) = Some []
   \<and> Option.bind (exec (call 0 (returning 7)) (ThreadPool 0 :: (unit, int) sys)) (call_result 0)
      = Some (Inr 0)"
  by (simp add: run_defs)


section \<open>The shutdown flag and teardown\<close>

text \<open>
  C9: \<open>stop\<close> is false in a new pool; no step resets it; the only step that sets it is
  the destructor's, taken while the destructor holds \<^verbatim>\<open>queue_mutex\<close>, and it happens at
  most once in a run. Having set the flag, the destructor can always take its next step,
  which is \<^verbatim>\<open>notify_all\<close> (it never issues \<^verbatim>\<open>notify_one\<close>): it comes after the flag is
  set and before any join, and it takes every worker that is blocked in \<^verbatim>\<open>wait\<close> out
  of it and leaves the others as they are. The join loop then takes the workers in order;
  it passes worker \<open>k\<close> exactly when that worker's thread has returned. The pool is
  destroyed only when every worker has returned and has been joined; and this end is
  always reached: from every reachable state some schedule of the workers and the
  destructor leads to the destroyed pool, with the flag set once, one broadcast, and
  every worker returned and joined once.
\<close>

theorem stop_is_monotonic:
  fixes s :: "('e, 'r) sys"
  assumes "exec as (ThreadPool n) = Some s" "step a s = Some s'"
  shows "\<not> stop (ThreadPool n :: ('e, 'r) sys)
    \<and> (stop s \<longrightarrow> stop s')
    \<and> (\<not> stop s \<longrightarrow> stop s' \<longrightarrow> a = Destroy \<and> queue_mutex s = Some Owner)
    \<and> count_list (trace s') Stop_set \<le> 1
    \<and> (a = Destroy \<longrightarrow> count_list (trace s') Notify_one = count_list (trace s) Notify_one)
    \<and> (a = Destroy \<longrightarrow> owner s = D_notify \<longrightarrow>
          workers s' = notify_all (workers s) \<and> trace s' = trace s @ [Notify_all])
    \<and> (past_broadcast (owner s') \<longrightarrow> (\<forall>i<n. workers s' ! i \<noteq> W_blocked))
    \<and> (owner s' = D_destroyed \<longrightarrow> (\<forall>i<n. workers s' ! i = W_exited))
    \<and> (owner s = D_locked \<longrightarrow> \<not> stop s \<and> queue_mutex s = Some Owner
          \<and> dtor_step s = Some (s\<lparr>stop := True, queue_mutex := None, owner := D_notify,
                                   trace := trace s @ [Stop_set]\<rparr>))
    \<and> (owner s = D_notify \<longrightarrow> stop s
          \<and> count_list (trace s) Stop_set = 1 \<and> count_list (trace s) Notify_all = 0
          \<and> (\<forall>i. count_list (trace s) (Joined i) = 0)
          \<and> (\<exists>s2. dtor_step s = Some s2 \<and> owner s2 = D_join 0
                \<and> trace s2 = trace s @ [Notify_all] \<and> length (workers s2) = n
                \<and> (\<forall>i<n. workers s2 ! i
                       = (if workers s ! i = W_blocked then W_lock else workers s ! i))))
    \<and> (\<forall>k. owner s = D_join k \<longrightarrow> k \<le> n
          \<and> (\<forall>i. count_list (trace s) (Joined i) = (if i < k then 1 else 0))
          \<and> (\<forall>i<k. workers s ! i = W_exited)
          \<and> (k < n \<longrightarrow> (dtor_step s \<noteq> None) = (workers s ! k = W_exited))
          \<and> (k < n \<longrightarrow> workers s ! k = W_exited \<longrightarrow>
                dtor_step s = Some (s\<lparr>owner := D_join (Suc k), trace := trace s @ [Joined k]\<rparr>))
          \<and> (k = n \<longrightarrow> map_option owner (dtor_step s) = Some D_destroyed))
    \<and> (\<exists>bs s2. exec bs s = Some s2 \<and> owner s2 = D_destroyed \<and> stop s2
          \<and> count_list (trace s2) Stop_set = 1 \<and> count_list (trace s2) Notify_all = 1
          \<and> (\<forall>i<n. count_list (trace s2) (Joined i) = 1 \<and> workers s2 ! i = W_exited))"
proof -
  have r': "exec (as @ [a]) (ThreadPool n) = Some s'"
    using assms by (simp add: exec_append)
  note r = reachableD[OF assms(1)]
  note r' = reachableD[OF r']
  note st = stop_step[OF assms(2)]
  have m: "inv_mutex s" and sp: "inv_stop s" and ij: "inv_join s"
    using r(1) unfolding inv_ctl_def by blast+
  note jd = inv_joined_reachable[OF assms(1)]
  have 1: "\<not> stop (ThreadPool n :: ('e, 'r) sys)" by (simp add: ThreadPool_def)
  have 3: "\<not> stop s \<longrightarrow> stop s' \<longrightarrow> a = Destroy \<and> queue_mutex s = Some Owner"
  proof (intro impI)
    assume "\<not> stop s" "stop s'"
    then have "a = Destroy" "owner s = D_locked" using st(2) by blast+
    then show "a = Destroy \<and> queue_mutex s = Some Owner" using mutex_owner m by blast
  qed
  have 4: "count_list (trace s') Stop_set \<le> 1"
    using r'(10) unfolding inv_signals_def by auto
  have "workers s' ! i \<noteq> W_blocked" if "past_broadcast (owner s')" "i < n" for i
    using r'(10) that r'(11) unfolding inv_signals_def by auto
  then have 7: "past_broadcast (owner s') \<longrightarrow> (\<forall>i<n. workers s' ! i \<noteq> W_blocked)" by blast
  have "workers s' ! i = W_exited" if "owner s' = D_destroyed" "i < n" for i
    using joined_all_exited[OF r'(1), of i] that r'(11) by simp
  then have 8: "owner s' = D_destroyed \<longrightarrow> (\<forall>i<n. workers s' ! i = W_exited)" by blast
  have 9: "owner s = D_locked \<longrightarrow> \<not> stop s \<and> queue_mutex s = Some Owner
          \<and> dtor_step s = Some (s\<lparr>stop := True, queue_mutex := None, owner := D_notify,
                                   trace := trace s @ [Stop_set]\<rparr>)"
  proof (intro impI)
    assume o: "owner s = D_locked"
    have "\<not> stop s" using sp o by (simp add: inv_stop_def)
    moreover have "queue_mutex s = Some Owner" using mutex_owner m o by blast
    moreover have "dtor_step s = Some (s\<lparr>stop := True, queue_mutex := None, owner := D_notify,
        trace := trace s @ [Stop_set]\<rparr>)" using o by (simp add: dtor_step_def)
    ultimately show "\<not> stop s \<and> queue_mutex s = Some Owner
          \<and> dtor_step s = Some (s\<lparr>stop := True, queue_mutex := None, owner := D_notify,
                                   trace := trace s @ [Stop_set]\<rparr>)" by blast
  qed
  have 10: "owner s = D_notify \<longrightarrow> stop s
          \<and> count_list (trace s) Stop_set = 1 \<and> count_list (trace s) Notify_all = 0
          \<and> (\<forall>i. count_list (trace s) (Joined i) = 0)
          \<and> (\<exists>s2. dtor_step s = Some s2 \<and> owner s2 = D_join 0
                \<and> trace s2 = trace s @ [Notify_all] \<and> length (workers s2) = n
                \<and> (\<forall>i<n. workers s2 ! i
                       = (if workers s ! i = W_blocked then W_lock else workers s ! i)))"
  proof (intro impI)
    assume o: "owner s = D_notify"
    have a: "stop s" using sp o by (simp add: inv_stop_def)
    have b: "count_list (trace s) Stop_set = 1" "count_list (trace s) Notify_all = 0"
      using r(10) a o unfolding inv_signals_def by (simp_all add: past_broadcast_def)
    have c: "\<forall>i. count_list (trace s) (Joined i) = 0"
      using jd o unfolding inv_joined_def by (simp add: joined_upto_def)
    let ?s2 = "s\<lparr>workers := notify_all (workers s), owner := D_join 0,
        trace := trace s @ [Notify_all]\<rparr>"
    have "dtor_step s = Some ?s2" using o by (simp add: dtor_step_def)
    moreover have "owner ?s2 = D_join 0" "trace ?s2 = trace s @ [Notify_all]"
      "length (workers ?s2) = n" using r(11) by simp_all
    moreover have "\<forall>i<n. workers ?s2 ! i
        = (if workers s ! i = W_blocked then W_lock else workers s ! i)"
      using r(11) by (simp add: nth_notify_all)
    ultimately have d: "\<exists>s2. dtor_step s = Some s2 \<and> owner s2 = D_join 0
                \<and> trace s2 = trace s @ [Notify_all] \<and> length (workers s2) = n
                \<and> (\<forall>i<n. workers s2 ! i
                       = (if workers s ! i = W_blocked then W_lock else workers s ! i))"
      by (intro exI[of _ ?s2] conjI)
    from a b c d show "stop s
          \<and> count_list (trace s) Stop_set = 1 \<and> count_list (trace s) Notify_all = 0
          \<and> (\<forall>i. count_list (trace s) (Joined i) = 0)
          \<and> (\<exists>s2. dtor_step s = Some s2 \<and> owner s2 = D_join 0
                \<and> trace s2 = trace s @ [Notify_all] \<and> length (workers s2) = n
                \<and> (\<forall>i<n. workers s2 ! i
                       = (if workers s ! i = W_blocked then W_lock else workers s ! i)))"
      by (intro conjI)
  qed
  have 11: "\<forall>k. owner s = D_join k \<longrightarrow> k \<le> n
          \<and> (\<forall>i. count_list (trace s) (Joined i) = (if i < k then 1 else 0))
          \<and> (\<forall>i<k. workers s ! i = W_exited)
          \<and> (k < n \<longrightarrow> (dtor_step s \<noteq> None) = (workers s ! k = W_exited))
          \<and> (k < n \<longrightarrow> workers s ! k = W_exited \<longrightarrow>
                dtor_step s = Some (s\<lparr>owner := D_join (Suc k), trace := trace s @ [Joined k]\<rparr>))
          \<and> (k = n \<longrightarrow> map_option owner (dtor_step s) = Some D_destroyed)"
  proof (intro allI impI)
    fix k
    assume o: "owner s = D_join k"
    have a: "k \<le> n"
      using inv_joining_reachable[OF assms(1)] o r(11) unfolding inv_joining_def by auto
    have b: "\<forall>i. count_list (trace s) (Joined i) = (if i < k then 1 else 0)"
      using jd o unfolding inv_joined_def by (simp add: joined_upto_def)
    have "workers s ! i = W_exited" if "i < k" for i
    proof -
      have "i < length (workers s)" using that a r(11) by simp
      then show ?thesis using ij o that unfolding inv_join_def by blast
    qed
    then have c: "\<forall>i<k. workers s ! i = W_exited" by blast
    have d: "k < n \<longrightarrow> (dtor_step s \<noteq> None) = (workers s ! k = W_exited)"
      using o r(11) by (simp add: dtor_step_def)
    have e: "k < n \<longrightarrow> workers s ! k = W_exited \<longrightarrow>
                dtor_step s = Some (s\<lparr>owner := D_join (Suc k), trace := trace s @ [Joined k]\<rparr>)"
      using o r(11) by (simp add: dtor_step_def)
    have f: "k = n \<longrightarrow> map_option owner (dtor_step s) = Some D_destroyed"
      using o r(11) by (simp add: dtor_step_def)
    from a b c d e f show "k \<le> n
          \<and> (\<forall>i. count_list (trace s) (Joined i) = (if i < k then 1 else 0))
          \<and> (\<forall>i<k. workers s ! i = W_exited)
          \<and> (k < n \<longrightarrow> (dtor_step s \<noteq> None) = (workers s ! k = W_exited))
          \<and> (k < n \<longrightarrow> workers s ! k = W_exited \<longrightarrow>
                dtor_step s = Some (s\<lparr>owner := D_join (Suc k), trace := trace s @ [Joined k]\<rparr>))
          \<and> (k = n \<longrightarrow> map_option owner (dtor_step s) = Some D_destroyed)"
      by (intro conjI)
  qed
  have 12: "\<exists>bs s2. exec bs s = Some s2 \<and> owner s2 = D_destroyed \<and> stop s2
          \<and> count_list (trace s2) Stop_set = 1 \<and> count_list (trace s2) Notify_all = 1
          \<and> (\<forall>i<n. count_list (trace s2) (Joined i) = 1 \<and> workers s2 ! i = W_exited)"
    using teardown_ends[OF assms(1)] by blast
  from 1 st(1) 3 4 st(3,4) 7 8 9 10 11 12 show ?thesis by (intro conjI)
qed

theorem stop_is_monotonic_witness:
  "\<exists>s s'. exec [Work 0, Work 0, Destroy, Destroy] (ThreadPool 2 :: (unit, int) sys)
        = Some s
     \<and> step Destroy s = Some s'
     \<and> stop s \<and> stop s' \<and> owner s = D_notify
     \<and> workers s = [W_blocked, W_lock] \<and> workers s' = [W_lock, W_lock]
     \<and> trace s' = [Stop_set, Notify_all]
     \<and> (\<exists>bs s2. exec bs s = Some s2 \<and> owner s2 = D_destroyed \<and> stop s2
          \<and> count_list (trace s2) Stop_set = 1 \<and> count_list (trace s2) Notify_all = 1
          \<and> count_list (trace s2) (Joined 0) = 1 \<and> count_list (trace s2) (Joined 1) = 1
          \<and> workers s2 ! 0 = W_exited \<and> workers s2 ! 1 = W_exited)"
proof -
  let ?as = "[Work 0, Work 0, Destroy, Destroy] :: (unit, int) action list"
  have "\<exists>s s'. exec ?as (ThreadPool 2) = Some s
      \<and> step Destroy s = Some s' \<and> stop s \<and> owner s = D_notify
      \<and> workers s = [W_blocked, W_lock] \<and> trace s = [Stop_set]"
    by (simp add: run_defs numeral_2_eq_2)
  then obtain s s' :: "(unit, int) sys"
    where s: "exec ?as (ThreadPool 2) = Some s" "step Destroy s = Some s'"
      and v: "stop s" "owner s = D_notify" "workers s = [W_blocked, W_lock]"
        "trace s = [Stop_set]" by blast
  note T = stop_is_monotonic[OF s]
  have a: "stop s'" using T[THEN conjunct2, THEN conjunct1] v(1) by blast
  have "workers s' = notify_all (workers s) \<and> trace s' = trace s @ [Notify_all]"
    using T[THEN conjunct2, THEN conjunct2, THEN conjunct2, THEN conjunct2, THEN conjunct2, THEN conjunct1] v(2) by blast
  then have b: "workers s' = [W_lock, W_lock]" "trace s' = [Stop_set, Notify_all]"
    unfolding v(3,4) by (simp_all add: notify_all_def)
  from T[THEN conjunct2, THEN conjunct2, THEN conjunct2, THEN conjunct2, THEN conjunct2, THEN conjunct2, THEN conjunct2, THEN conjunct2, THEN conjunct2, THEN conjunct2, THEN conjunct2] obtain bs s2 where e: "exec bs s = Some s2" "owner s2 = D_destroyed" "stop s2"
    "count_list (trace s2) Stop_set = 1" "count_list (trace s2) Notify_all = 1"
    "\<forall>i<2. count_list (trace s2) (Joined i) = 1 \<and> workers s2 ! i = W_exited" by blast
  have "count_list (trace s2) (Joined 0) = 1 \<and> workers s2 ! 0 = W_exited"
    "count_list (trace s2) (Joined 1) = 1 \<and> workers s2 ! 1 = W_exited"
    using e(6) by simp_all
  then have c: "\<exists>bs s2. exec bs s = Some s2 \<and> owner s2 = D_destroyed \<and> stop s2
          \<and> count_list (trace s2) Stop_set = 1 \<and> count_list (trace s2) Notify_all = 1
          \<and> count_list (trace s2) (Joined 0) = 1 \<and> count_list (trace s2) (Joined 1) = 1
          \<and> workers s2 ! 0 = W_exited \<and> workers s2 ! 1 = W_exited"
    using e(1-5) by blast
  from s v(1,2,3) a b c show ?thesis by blast
qed

section \<open>submit\<close>




text \<open>
  C1 as stated fails in one clause: the packaged task and its future are made by lines
  50-54, before the mutex is taken and before \<open>stop\<close> is read, so on a stopped pool the
  shared state of the call exists while the call runs.
\<close>

theorem handle_created_before_stop_is_read:
  "map_option stop (exec [Destroy, Destroy] (ThreadPool 1 :: (unit, int) sys)) = Some True
   \<and> Option.bind (exec [Destroy, Destroy] (ThreadPool 1 :: (unit, int) sys)) (state_of 0) = None
   \<and> Option.bind (exec [Destroy, Destroy, Submit 0 (returning 7)]
          (ThreadPool 1 :: (unit, int) sys)) (state_of 0) = Some Pending
   \<and> map_option tasks (exec [Destroy, Destroy, Submit 0 (returning 7)]
          (ThreadPool 1 :: (unit, int) sys)) = Some []
   \<and> Option.bind (exec [Destroy, Destroy, Submit 0 (returning 7), In_submit 0 0, In_submit 0 0]
          (ThreadPool 1 :: (unit, int) sys)) (call_result 0) = Some (Inl PoolShutdown)"
  by (simp add: run_defs state_of_def)

text \<open>
  C1, as the code has it. On a pool whose \<open>stop\<close> flag is set and which is not yet
  destroyed, the first step of a call of \<^verbatim>\<open>submit\<close> makes the packaged task and the
  shared state of its future; the queue is not touched. However the threads of the pool
  and other callers run on from there: the task is never in the queue, never accepted
  and never invoked, its shared state never holds an outcome, no call ever returns its
  future, and the calling thread is before the lock, in the locked block, or has thrown
  \<^verbatim>\<open>PoolShutdown\<close>. As long as the pool is not destroyed, the call can always be run
  to the throw. With no other thread in between and the mutex free, the call ends in the
  throw and leaves the queue, the workers and the heap of shared states as they were;
  what remains of it is the used-up address and the record of the rejection.
\<close>

theorem submit_on_stopped_pool:
  fixes s :: "('e, 'r) sys"
  assumes "exec as (ThreadPool n) = Some s" "stop s" "\<not> in_call (callers s c)"
    "owner s \<noteq> D_destroyed"
  shows "\<exists>s1. step (Submit c f) s = Some s1
    \<and> state_of (next_state s) s = None
    \<and> state_of (next_state s) s1 = Some Pending
    \<and> callers s1 c = S_lock (Packaged_task f (next_state s))
    \<and> tasks s1 = tasks s \<and> workers s1 = workers s \<and> trace s1 = trace s
    \<and> (\<forall>bs s2. exec bs s1 = Some s2 \<longrightarrow>
          stop s2
          \<and> Packaged_task f (next_state s) \<notin> set (tasks s2)
          \<and> Packaged_task f (next_state s) \<notin> set (enqueued (trace s2))
          \<and> Packaged_task f (next_state s) \<notin> set (dequeued (trace s2))
          \<and> Packaged_task f (next_state s) \<notin> set (executed (trace s2))
          \<and> future_get (next_state s) s2 = None
          \<and> (\<forall>c'. call_result c' s2 \<noteq> Some (Inr (next_state s)))
          \<and> ((\<forall>g. Submit c g \<notin> set bs) \<longrightarrow>
                callers s2 c = S_lock (Packaged_task f (next_state s))
                \<or> callers s2 c = S_locked (Packaged_task f (next_state s))
                \<or> callers s2 c = S_thrown PoolShutdown)
          \<and> ((\<forall>g. Submit c g \<notin> set bs) \<longrightarrow> owner s2 \<noteq> D_destroyed \<longrightarrow>
                (\<exists>cs s3. exec cs s2 = Some s3 \<and> call_result c s3 = Some (Inl PoolShutdown))))
    \<and> (queue_mutex s = None \<longrightarrow>
          (\<exists>s'. submit c f s = Some s'
             \<and> exec [In_submit c 0, In_submit c 0] s1 = Some s'
             \<and> call_result c s' = Some (Inl PoolShutdown)
             \<and> tasks s' = tasks s \<and> workers s' = workers s \<and> futures s' = futures s
             \<and> next_state s' = Suc (next_state s) \<and> stop s'
             \<and> trace s' = trace s @ [Rejected c]))
    \<and> (\<forall>(s2 :: ('e, 'r) sys) t k. stop s2 \<longrightarrow> owner s2 \<noteq> D_destroyed
          \<longrightarrow> callers s2 c = S_locked t \<longrightarrow>
          (\<exists>s3. submit_step c k s2 = Some s3 \<and> callers s3 c = S_thrown PoolShutdown
             \<and> tasks s3 = tasks s2))"
    (is "\<exists>s1. ?P s1")
proof -
  note r = reachableD[OF assms(1)]
  let ?h = "next_state s"
  let ?t = "Packaged_task f ?h"
  let ?s1 = "s\<lparr>futures := (futures s)(?h \<mapsto> Pending), next_state := Suc ?h,
      callers := (callers s)(c := S_lock ?t)\<rparr>"
  have st: "step (Submit c f) s = Some ?s1"
    using assms(3,4) by (simp add: submit_begin_def)
  have none: "futures s ?h = None" using r(8) unfolding inv_fresh_def by simp
  have 1: "state_of ?h s = None" using none by (simp add: state_of_def)
  have 2: "state_of ?h ?s1 = Some Pending" by (simp add: state_of_def)
  have 3: "callers ?s1 c = S_lock ?t" by simp
  have 4: "tasks ?s1 = tasks s" "workers ?s1 = workers s" "trace ?s1 = trace s" by simp_all
  have e1: "exec (as @ [Submit c f]) (ThreadPool n) = Some ?s1"
    using assms(1) st by (simp add: exec_append)
  have i1: "inv ?s1" using teardown_reachable[OF e1] by blast
  have "?h \<notin> state_id ` set (enqueued (trace s))"
    using inv_queueD(3)[OF r(2)] by fastforce
  then have g: "rejecting ?h ?s1" using assms(2) by (simp add: rejecting_def future_get_def)
  have later: "stop s2
          \<and> ?t \<notin> set (tasks s2)
          \<and> ?t \<notin> set (enqueued (trace s2))
          \<and> ?t \<notin> set (dequeued (trace s2))
          \<and> ?t \<notin> set (executed (trace s2))
          \<and> future_get ?h s2 = None
          \<and> (\<forall>c'. call_result c' s2 \<noteq> Some (Inr ?h))
          \<and> ((\<forall>g. Submit c g \<notin> set bs) \<longrightarrow>
                callers s2 c = S_lock ?t \<or> callers s2 c = S_locked ?t
                \<or> callers s2 c = S_thrown PoolShutdown)
          \<and> ((\<forall>g. Submit c g \<notin> set bs) \<longrightarrow> owner s2 \<noteq> D_destroyed \<longrightarrow>
                (\<exists>cs s3. exec cs s2 = Some s3 \<and> call_result c s3 = Some (Inl PoolShutdown)))"
    if ex: "exec bs ?s1 = Some s2" for bs s2
  proof -
    have e2: "exec ((as @ [Submit c f]) @ bs) (ThreadPool n) = Some s2"
      using e1 ex by (simp only: exec_append) simp
    note r2 = reachableD[OF e2]
    note p = parts_of_enqueued[OF r2(2)]
    have g2: "rejecting ?h s2" by (rule rejecting_exec[OF i1 g ex])
    then have a: "stop s2" and b: "future_get ?h s2 = None"
      and en: "?h \<notin> state_id ` set (enqueued (trace s2))"
      unfolding rejecting_def by blast+
    have c1: "?t \<notin> set (enqueued (trace s2))" using en by force
    then have c2: "?t \<notin> set (tasks s2)" and c3: "?t \<notin> set (dequeued (trace s2))"
      using p(1,2) by blast+
    have c4: "?t \<notin> set (executed (trace s2))" using c3 inv_execD(1)[OF r2(4)] by blast
    have d: "\<forall>c'. call_result c' s2 \<noteq> Some (Inr ?h)"
    proof
      fix c'
      have "callers s2 c' \<noteq> S_returned ?h"
        using inv_returned_reachable[OF e2] en unfolding inv_returned_def by blast
      then show "call_result c' s2 \<noteq> Some (Inr ?h)"
        by (auto simp: call_result_def split: caller.splits)
    qed
    have pc: "callers s2 c = S_lock ?t \<or> callers s2 c = S_locked ?t
        \<or> callers s2 c = S_thrown PoolShutdown" if "\<forall>g. Submit c g \<notin> set bs"
    proof -
      have "stop ?s1" using assms(2) by simp
      moreover have "callers ?s1 c = S_lock ?t \<or> callers ?s1 c = S_locked ?t
          \<or> callers ?s1 c = S_thrown PoolShutdown" by simp
      ultimately show ?thesis using rejected_call_exec[OF ex _ _ that] by blast
    qed
    have pr: "\<exists>cs s3. exec cs s2 = Some s3 \<and> call_result c s3 = Some (Inl PoolShutdown)"
      if "\<forall>g. Submit c g \<notin> set bs" "owner s2 \<noteq> D_destroyed"
    proof -
      from rejection_completes[OF good_reachable[OF e2] a that(2) pc[OF that(1)]]
      obtain s3 where s3: "reaches s2 s3" "callers s3 c = S_thrown PoolShutdown" by blast
      then obtain cs where "exec cs s2 = Some s3" unfolding reaches_def by blast
      moreover have "call_result c s3 = Some (Inl PoolShutdown)"
        using s3(2) by (simp add: call_result_def)
      ultimately show ?thesis by blast
    qed
    from a c2 c1 c3 c4 b d pc pr show ?thesis by blast
  qed
  then have 5: "\<forall>bs s2. exec bs ?s1 = Some s2 \<longrightarrow>
          stop s2
          \<and> ?t \<notin> set (tasks s2)
          \<and> ?t \<notin> set (enqueued (trace s2))
          \<and> ?t \<notin> set (dequeued (trace s2))
          \<and> ?t \<notin> set (executed (trace s2))
          \<and> future_get ?h s2 = None
          \<and> (\<forall>c'. call_result c' s2 \<noteq> Some (Inr ?h))
          \<and> ((\<forall>g. Submit c g \<notin> set bs) \<longrightarrow>
                callers s2 c = S_lock ?t \<or> callers s2 c = S_locked ?t
                \<or> callers s2 c = S_thrown PoolShutdown)
          \<and> ((\<forall>g. Submit c g \<notin> set bs) \<longrightarrow> owner s2 \<noteq> D_destroyed \<longrightarrow>
                (\<exists>cs s3. exec cs s2 = Some s3 \<and> call_result c s3 = Some (Inl PoolShutdown)))"
    by blast
  have 6: "queue_mutex s = None \<longrightarrow>
          (\<exists>s'. submit c f s = Some s'
             \<and> exec [In_submit c 0, In_submit c 0] ?s1 = Some s'
             \<and> call_result c s' = Some (Inl PoolShutdown)
             \<and> tasks s' = tasks s \<and> workers s' = workers s \<and> futures s' = futures s
             \<and> next_state s' = Suc (next_state s) \<and> stop s'
             \<and> trace s' = trace s @ [Rejected c])"
  proof
    assume mx: "queue_mutex s = None"
    let ?s' = "s\<lparr>queue_mutex := None, futures := (futures s)(?h := None),
        next_state := Suc ?h, callers := (callers s)(c := S_thrown PoolShutdown),
        trace := trace s @ [Rejected c]\<rparr>"
    have run: "submit c f s = Some ?s'" by (rule submit_rejected[OF assms(2,3) mx assms(4)])
    have fs: "(futures s)(?h := None) = futures s" using none by (simp add: fun_upd_idem)
    have two: "exec [In_submit c 0, In_submit c 0] ?s1 = Some ?s'"
      using assms(2,4) mx by (simp add: submit_step_def)
    have "call_result c ?s' = Some (Inl PoolShutdown)" by (simp add: call_result_def)
    moreover have "tasks ?s' = tasks s" "workers ?s' = workers s" "futures ?s' = futures s"
      "next_state ?s' = Suc (next_state s)" "stop ?s'" "trace ?s' = trace s @ [Rejected c]"
      using fs assms(2) by simp_all
    ultimately show "\<exists>s'. submit c f s = Some s'
             \<and> exec [In_submit c 0, In_submit c 0] ?s1 = Some s'
             \<and> call_result c s' = Some (Inl PoolShutdown)
             \<and> tasks s' = tasks s \<and> workers s' = workers s \<and> futures s' = futures s
             \<and> next_state s' = Suc (next_state s) \<and> stop s'
             \<and> trace s' = trace s @ [Rejected c]"
      using run two by (intro exI[of _ ?s'] conjI)
  qed
  have 7: "\<forall>(s2 :: ('e, 'r) sys) t k. stop s2 \<longrightarrow> owner s2 \<noteq> D_destroyed
          \<longrightarrow> callers s2 c = S_locked t \<longrightarrow>
          (\<exists>s3. submit_step c k s2 = Some s3 \<and> callers s3 c = S_thrown PoolShutdown
             \<and> tasks s3 = tasks s2)"
    using locked_block_throws by blast
  from st 1 2 3 4 5 6 7 have "?P ?s1" by (intro conjI)
  then show ?thesis by (rule exI[of _ ?s1])
qed

theorem submit_on_stopped_pool_witness:
  "\<exists>s s1 s'. exec [Work 0, Work 0, Destroy, Destroy] (ThreadPool 1 :: (unit, int) sys) = Some s
     \<and> stop s \<and> \<not> in_call (callers s 0) \<and> owner s \<noteq> D_destroyed \<and> queue_mutex s = None
     \<and> step (Submit 0 (returning 7)) s = Some s1
     \<and> state_of 0 s = None \<and> state_of 0 s1 = Some Pending
     \<and> submit 0 (returning 7) s = Some s'
     \<and> call_result 0 s' = Some (Inl PoolShutdown)
     \<and> tasks s' = tasks s \<and> futures s' = futures s
     \<and> trace s' = trace s @ [Rejected 0]
     \<and> Packaged_task (returning 7) 0 \<notin> set (enqueued (trace s'))
     \<and> future_get 0 s' = None"
proof -
  let ?as = "[Work 0, Work 0, Destroy, Destroy] :: (unit, int) action list"
  have "\<exists>s. exec ?as (ThreadPool 1) = Some s
     \<and> stop s \<and> \<not> in_call (callers s 0) \<and> owner s \<noteq> D_destroyed \<and> queue_mutex s = None
     \<and> next_state s = 0"
    by (simp add: run_defs)
  then obtain s :: "(unit, int) sys" where s: "exec ?as (ThreadPool 1) = Some s"
    "stop s" "\<not> in_call (callers s 0)" "owner s \<noteq> D_destroyed"
    and v: "queue_mutex s = None" "next_state s = 0"
    by blast
  from submit_on_stopped_pool[OF s, of "returning 7"] obtain s1
    where s1: "step (Submit 0 (returning 7)) s = Some s1"
    and T: "state_of (next_state s) s = None" "state_of (next_state s) s1 = Some Pending"
      "\<forall>bs s2. exec bs s1 = Some s2 \<longrightarrow>
          stop s2
          \<and> Packaged_task (returning 7) (next_state s) \<notin> set (tasks s2)
          \<and> Packaged_task (returning 7) (next_state s) \<notin> set (enqueued (trace s2))
          \<and> Packaged_task (returning 7) (next_state s) \<notin> set (dequeued (trace s2))
          \<and> Packaged_task (returning 7) (next_state s) \<notin> set (executed (trace s2))
          \<and> future_get (next_state s) s2 = None
          \<and> (\<forall>c'. call_result c' s2 \<noteq> Some (Inr (next_state s)))
          \<and> ((\<forall>g. Submit 0 g \<notin> set bs) \<longrightarrow>
                callers s2 0 = S_lock (Packaged_task (returning 7) (next_state s))
                \<or> callers s2 0 = S_locked (Packaged_task (returning 7) (next_state s))
                \<or> callers s2 0 = S_thrown PoolShutdown)
          \<and> ((\<forall>g. Submit 0 g \<notin> set bs) \<longrightarrow> owner s2 \<noteq> D_destroyed \<longrightarrow>
                (\<exists>cs s3. exec cs s2 = Some s3 \<and> call_result 0 s3 = Some (Inl PoolShutdown)))"
      "queue_mutex s = None \<longrightarrow>
          (\<exists>s'. submit 0 (returning 7) s = Some s'
             \<and> exec [In_submit 0 0, In_submit 0 0] s1 = Some s'
             \<and> call_result 0 s' = Some (Inl PoolShutdown)
             \<and> tasks s' = tasks s \<and> workers s' = workers s \<and> futures s' = futures s
             \<and> next_state s' = Suc (next_state s) \<and> stop s'
             \<and> trace s' = trace s @ [Rejected 0])"
    apply -
    apply (erule exE)
    apply (elim conjE)
    apply (rule that)
    apply assumption+
    done
  from T(4) v(1) obtain s' where s': "submit 0 (returning 7) s = Some s'"
    "exec [In_submit 0 0, In_submit 0 0] s1 = Some s'"
    "call_result 0 s' = Some (Inl PoolShutdown)"
    "tasks s' = tasks s" "futures s' = futures s" "trace s' = trace s @ [Rejected 0]"
    by blast
  from T(3) s'(2) have
    "Packaged_task (returning 7) (next_state s) \<notin> set (enqueued (trace s'))
      \<and> future_get (next_state s) s' = None"
    by blast
  then have l: "Packaged_task (returning 7) 0 \<notin> set (enqueued (trace s'))"
    "future_get 0 s' = None"
    unfolding v(2) by blast+
  have a: "state_of 0 s = None" "state_of 0 s1 = Some Pending" using T(1,2) unfolding v(2) .
  from s v(1) s1 a s'(1,3,4,5,6) l show ?thesis
    by (intro exI[of _ s] exI[of _ s1] exI[of _ s'] conjI)
qed

section \<open>A task that throws\<close>

text \<open>
  C6: when a worker invokes a task whose callable throws, the step succeeds, stores the
  exception as the outcome in the shared state of that task, and takes the worker back to
  the top of its loop. The queue, the other workers and all other shared states are
  untouched, so the tasks still queued are served as before; and in no reachable state
  has a worker been left abnormally.
\<close>

theorem failure_is_captured:
  assumes "exec as (ThreadPool n) = Some s" "i < n" "workers s ! i = W_run t"
    "callable t () = Inl e"
  shows "\<exists>s'. worker_step i s = Some s'
    \<and> future_get (state_id t) s' = Some (Inl (Thrown e))
    \<and> workers s' = (workers s)[i := W_lock]
    \<and> tasks s' = tasks s
    \<and> (\<forall>h. h \<noteq> state_id t \<longrightarrow> futures s' h = futures s h)
    \<and> trace s' = trace s @ [Executed i t]
    \<and> (\<forall>j<n. workers s' ! j \<noteq> W_crashed)
    \<and> (\<forall>j. Crashed j \<notin> set (trace s'))"
    (is "\<exists>s'. ?P s'")
proof -
  note r = reachableD[OF assms(1)]
  have il: "i < length (workers s)" using assms(2) r(11) by simp
  have pend: "futures s (state_id t) = Some Pending"
    by (rule inv_futuresD(2)[OF r(5) il assms(3)])
  let ?s' = "s\<lparr>futures := (futures s)(state_id t \<mapsto> Ready (invoke (callable t))),
      workers := (workers s)[i := W_lock], trace := trace s @ [Executed i t]\<rparr>"
  have run: "worker_step i s = Some ?s'" by (rule run_wrapper[OF il assms(3) pend])
  have "exec (as @ [Work i]) (ThreadPool n) = Some ?s'"
    using assms(1) run by (simp add: exec_append)
  note r' = reachableD[OF this]
  have 1: "future_get (state_id t) ?s' = Some (Inl (Thrown e))"
    using assms(4) by (simp add: future_get_def invoke_def)
  have 2: "workers ?s' = (workers s)[i := W_lock]" "tasks ?s' = tasks s"
    "\<forall>h. h \<noteq> state_id t \<longrightarrow> futures ?s' h = futures s h"
    "trace ?s' = trace s @ [Executed i t]" by simp_all
  have 3: "\<forall>j<n. workers ?s' ! j \<noteq> W_crashed"
    using inv_crashD(1)[OF r'(6)] r'(11) by auto
  have 4: "\<forall>j. Crashed j \<notin> set (trace ?s')"
    using inv_crashD(2)[OF r'(6)] by blast
  from run 1 2 3 4 have "?P ?s'" by (intro conjI)
  then show ?thesis by (rule exI[of _ ?s'])
qed

theorem failure_is_captured_witness:
  "\<exists>s s'. exec (call 0 (throwing ''boom'') @ call 0 (returning 2) @ [Work 0, Work 0, Work 0])
          (ThreadPool 1 :: (string, int) sys) = Some s
     \<and> workers s ! 0 = W_run (Packaged_task (throwing ''boom'') 0)
     \<and> worker_step 0 s = Some s'
     \<and> future_get 0 s' = Some (Inl (Thrown ''boom''))
     \<and> workers s' = [W_lock]
     \<and> tasks s' = [Packaged_task (returning 2) 1]
     \<and> Option.bind (exec (call 0 (throwing ''boom'') @ call 0 (returning 2) @ serve 0 @ serve 0)
          (ThreadPool 1 :: (string, int) sys)) (future_get 1) = Some (Inr 2)"
proof -
  let ?as = "call 0 (throwing ''boom'') @ call 0 (returning 2) @ [Work 0, Work 0, Work 0]
      :: (string, int) action list"
  have "\<exists>s. exec ?as (ThreadPool 1) = Some s
      \<and> workers s = [W_run (Packaged_task (throwing ''boom'') 0)]
      \<and> tasks s = [Packaged_task (returning 2) 1]"
    by (simp add: run_defs)
  then obtain s where s: "exec ?as (ThreadPool 1) = Some s"
    and v: "workers s = [W_run (Packaged_task (throwing ''boom'') 0)]"
      "tasks s = [Packaged_task (returning 2) 1]"
    by blast
  have w: "workers s ! 0 = W_run (Packaged_task (throwing ''boom'') 0)" using v(1) by simp
  have c: "callable (Packaged_task (throwing ''boom'') 0 :: (string, int) packaged_task) ()
      = Inl ''boom''" by (simp add: throwing_def)
  have n: "(0::nat) < 1" by simp
  from failure_is_captured[OF s n w c] obtain s' where s':
    "worker_step 0 s = Some s'" "future_get 0 s' = Some (Inl (Thrown ''boom''))"
    "workers s' = (workers s)[0 := W_lock]" "tasks s' = tasks s" by auto
  have 1: "workers s' = [W_lock]" using s'(3) v(1) by simp
  have 2: "tasks s' = [Packaged_task (returning 2) 1]" using s'(4) v(2) by simp
  have 3: "Option.bind (exec (call 0 (throwing ''boom'') @ call 0 (returning 2) @ serve 0 @ serve 0)
          (ThreadPool 1 :: (string, int) sys)) (future_get 1) = Some (Inr 2)"
    by (simp add: run_defs)
  from s w s'(1,2) 1 2 3 show ?thesis by blast
qed

section \<open>A pool constructed with no workers\<close>

text \<open>
  C10, as the code has it: \<^verbatim>\<open>ThreadPool(0)\<close> yields a pool with an empty worker set. While
  \<open>stop\<close> is clear a call of \<^verbatim>\<open>submit\<close> on it is accepted: the task is appended to the
  queue and a future is returned. No task is ever taken from the queue or invoked. The
  join loop of the destructor is empty, so the destructor goes on to destroy the members
  with the tasks still queued. Until then the future of every accepted task is pending;
  from then on it is ready, holding \<^verbatim>\<open>broken_promise\<close>.
\<close>

theorem zero_workers_never_execute:
  fixes s :: "('e, 'r) sys"
  assumes "exec as (ThreadPool 0) = Some s"
  shows "workers s = []
    \<and> dequeued (trace s) = [] \<and> executed (trace s) = []
    \<and> enqueued (trace s) = (if owner s = D_destroyed then abandoned (trace s) else tasks s)
    \<and> (\<forall>t\<in>set (enqueued (trace s)). future_get (state_id t) s =
          (if owner s = D_destroyed then Some (Inl Broken_promise) else None))
    \<and> (\<forall>k. owner s = D_join k \<longrightarrow> k = 0 \<and> map_option owner (dtor_step s) = Some D_destroyed)
    \<and> (\<forall>c f. \<not> stop s \<longrightarrow> queue_mutex s = None \<longrightarrow> \<not> in_call (callers s c) \<longrightarrow>
          Option.bind (submit c f s) (call_result c) = Some (Inr (next_state s))
          \<and> map_option tasks (submit c f s) = Some (tasks s @ [Packaged_task f (next_state s)]))"
proof -
  note r = reachableD[OF assms]
  have j: "inv_joining s" by (rule inv_joining_reachable[OF assms])
  have 1: "workers s = []" using r(11) by simp
  have 2: "dequeued (trace s) = []" "executed (trace s) = []"
    using j 1 unfolding inv_joining_def by blast+
  have eq: "enqueued (trace s) = tasks s @ abandoned (trace s)"
    using inv_queueD(1)[OF r(2)] 2(1) by simp
  have 3: "enqueued (trace s) = (if owner s = D_destroyed then abandoned (trace s) else tasks s)"
  proof (cases "owner s = D_destroyed")
    case True
    then have "tasks s = []" using j unfolding inv_joining_def by blast
    then show ?thesis using eq True by simp
  next
    case False
    then show ?thesis using eq inv_queueD(4)[OF r(2)] by simp
  qed
  have 4: "\<forall>t\<in>set (enqueued (trace s)). future_get (state_id t) s =
          (if owner s = D_destroyed then Some (Inl Broken_promise) else None)"
  proof
    fix t assume t: "t \<in> set (enqueued (trace s))"
    show "future_get (state_id t) s =
          (if owner s = D_destroyed then Some (Inl Broken_promise) else None)"
    proof (cases "owner s = D_destroyed")
      case True
      then have "t \<in> set (abandoned (trace s))" using t 3 by simp
      from inv_futuresD(5)[OF r(5) this] True show ?thesis by (simp add: future_get_def)
    next
      case False
      then have "t \<in> set (tasks s)" using t 3 by simp
      from inv_futuresD(1)[OF r(5) this] False show ?thesis by (simp add: future_get_def)
    qed
  qed
  have 5: "\<forall>k. owner s = D_join k \<longrightarrow> k = 0 \<and> map_option owner (dtor_step s) = Some D_destroyed"
  proof (intro allI impI)
    fix k assume k: "owner s = D_join k"
    then have "k \<le> length (workers s)" using j unfolding inv_joining_def by blast
    then have "k = 0" using 1 by simp
    moreover have "map_option owner (dtor_step s) = Some D_destroyed"
      using members_step[OF k] 1 by simp
    ultimately show "k = 0 \<and> map_option owner (dtor_step s) = Some D_destroyed" by blast
  qed
  have 6: "\<forall>c f. \<not> stop s \<longrightarrow> queue_mutex s = None \<longrightarrow> \<not> in_call (callers s c) \<longrightarrow>
          Option.bind (submit c f s) (call_result c) = Some (Inr (next_state s))
          \<and> map_option tasks (submit c f s) = Some (tasks s @ [Packaged_task f (next_state s)])"
  proof (intro allI impI)
    fix c f assume a: "\<not> stop s" "queue_mutex s = None" "\<not> in_call (callers s c)"
    have alive: "owner s \<noteq> D_destroyed"
      using r(1) a(1) unfolding inv_ctl_def inv_stop_def by auto
    from submit_accepted[OF a(1,3,2) alive, of f]
    show "Option.bind (submit c f s) (call_result c) = Some (Inr (next_state s))
          \<and> map_option tasks (submit c f s) = Some (tasks s @ [Packaged_task f (next_state s)])"
      by (simp add: call_result_def)
  qed
  from 1 2 3 4 5 6 show ?thesis by (intro conjI)
qed

theorem zero_workers_never_execute_witness:
  "\<exists>s. exec (call 0 (returning 7) @ [Destroy, Destroy, Destroy]) (ThreadPool 0 :: (unit, int) sys)
         = Some s
     \<and> owner s = D_join 0
     \<and> enqueued (trace s) = [Packaged_task (returning 7) 0]
     \<and> tasks s = [Packaged_task (returning 7) 0]
     \<and> executed (trace s) = []
     \<and> future_get 0 s = None
     \<and> map_option owner (dtor_step s) = Some D_destroyed"
proof -
  let ?as = "call 0 (returning 7) @ [Destroy, Destroy, Destroy] :: (unit, int) action list"
  have "\<exists>s. exec ?as (ThreadPool 0) = Some s \<and> owner s = D_join 0
      \<and> enqueued (trace s) = [Packaged_task (returning 7) 0]"
    by (simp add: run_defs)
  then obtain s where s: "exec ?as (ThreadPool 0) = Some s" "owner s = D_join 0"
    "enqueued (trace s) = [Packaged_task (returning 7) 0]" by blast
  note z = zero_workers_never_execute[OF s(1)]
  have 1: "executed (trace s) = []" using z by blast
  have 2: "tasks s = [Packaged_task (returning 7) 0]" using z s(2,3) by simp
  have "\<forall>t\<in>set (enqueued (trace s)). future_get (state_id t) s =
          (if owner s = D_destroyed then Some (Inl Broken_promise) else None)"
    using z by blast
  then have 3: "future_get 0 s = None" using s(2,3) by simp
  have "\<forall>k. owner s = D_join k \<longrightarrow> k = 0 \<and> map_option owner (dtor_step s) = Some D_destroyed"
    using z by blast
  then have 4: "map_option owner (dtor_step s) = Some D_destroyed" using s(2) by blast
  from s 1 2 3 4 show ?thesis by blast
qed

text \<open>
  C10 as stated fails in its last part: the handle of the task that was never executed
  does become ready, when the pool is destroyed. It is pending while the destructor
  runs and holds \<^verbatim>\<open>broken_promise\<close> once the queue has been destroyed.
\<close>

theorem zero_workers_handle_becomes_ready:
  "Option.bind (exec (call 0 (returning 7) @ [Destroy, Destroy, Destroy])
      (ThreadPool 0 :: (unit, int) sys)) (future_get 0) = None
   \<and> map_option owner (exec (call 0 (returning 7) @ [Destroy, Destroy, Destroy])
      (ThreadPool 0 :: (unit, int) sys)) = Some (D_join 0)
   \<and> Option.bind (exec (call 0 (returning 7) @ [Destroy, Destroy, Destroy, Destroy])
      (ThreadPool 0 :: (unit, int) sys)) (future_get 0) = Some (Inl Broken_promise)
   \<and> map_option (executed \<circ> trace) (exec (call 0 (returning 7) @ [Destroy, Destroy, Destroy, Destroy])
      (ThreadPool 0 :: (unit, int) sys)) = Some []"
  by (simp add: run_defs)

end
